theory Spec2Isabelle
  imports Complex_Main "HOL-Library.Product_Lexorder" "HOL-Library.List_Lexorder"
    "HOL-Library.Char_ord"
begin

section \<open>Analytics transformer of the F1 data platform\<close>

text \<open>
  A shallow embedding of \<^verbatim>\<open>f1_pipeline/transformers/analytics_transformer.py\<close>
  (class \<^verbatim>\<open>DataTransformer\<close>). Data frames are lists of rows, a row is a record whose
  fields are the columns the code reads. Points are whole numbers (the points table
  holds integers and the bonus is 1), so they are \<open>int\<close>; lap durations and penalty
  seconds are \<open>rat\<close>; timestamps are \<open>int\<close> (only equality and order are used on them).
  A nullable integer column is \<open>int option\<close>: the code sees a null as pandas' NaN,
  which compares False with everything and is no key of a dict.
\<close>

subsection \<open>Errors\<close>

datatype error = IndexError | TypeError | DatabaseError

subsection \<open>Nullable comparisons and string formatting\<close>

definition eq_null :: "int option \<Rightarrow> int \<Rightarrow> bool" where
  "eq_null v n = (case v of None \<Rightarrow> False | Some p \<Rightarrow> p = n)"

definition le_null :: "int option \<Rightarrow> int \<Rightarrow> bool" where
  "le_null v n = (case v of None \<Rightarrow> False | Some p \<Rightarrow> p \<le> n)"

fun str_nat :: "nat \<Rightarrow> string" where
  "str_nat n = (if n < 10 then [char_of (48 + n)]
                else str_nat (n div 10) @ [char_of (48 + n mod 10)])"

declare str_nat.simps [simp del]

definition str_int :: "int \<Rightarrow> string" where
  "str_int i = (if i < 0 then CHR ''-'' # str_nat (nat (- i)) else str_nat (nat i))"

subsection \<open>Rows that the database provider returns\<close>

text \<open>
  The database is a collaborator. \<open>fetch_race_sessions\<close>, \<open>fetch_session_results\<close>,
  \<open>fetch_session_drivers\<close> and \<open>fetch_starting_grid\<close> are its answers to the queries of lines 76,
  452, 461 and 470 (a frame per year or per session key, in the order of the query), with
  the columns the code reads. \<open>raw_laps\<close> is the table of that name: the query of line
  479 aggregates it and is modelled below. A column that may be missing from a frame
  (\<^verbatim>\<open>result.get("dsq", False)\<close>) is an option, \<open>None\<close> when the frame has no such column.
\<close>

record session =
  session_key :: int
  meeting_key :: int
  race_round :: int
  race_date :: int
  meeting_name :: string
  circuit_short_name :: string

record session_result =
  driver_number :: int
  position :: "int option"
  dnf :: "bool option"
  dns :: "bool option"
  dsq :: "bool option"

record driver_row =
  driver_number :: int
  full_name :: string
  name_acronym :: string
  team_name :: string

record grid_row =
  driver_number :: int
  position :: "int option"

record lap =
  session_key :: int
  driver_number :: int
  lap_duration :: "rat option"

text \<open>A row of the frame that \<^verbatim>\<open>_get_fastest_laps\<close> returns, and one of \<^verbatim>\<open>_get_penalties\<close>.\<close>

record fastest_lap_row =
  driver_number :: int
  lap_duration :: rat

record penalty_row =
  driver_number :: int
  penalty_seconds :: rat

text \<open>
  Modelled from the spec: the penalty events that collaborators supply (section 6,
  \<^verbatim>\<open>{session_key, driver_number, penalty_seconds}\<close>). The source has no table for them.
\<close>

record penalty_event =
  session_key :: int
  driver_number :: int
  penalty_seconds :: rat

record database =
  fetch_race_sessions :: "int \<Rightarrow> session list"
  fetch_session_results :: "int \<Rightarrow> session_result list"
  fetch_session_drivers :: "int \<Rightarrow> driver_row list"
  fetch_starting_grid :: "int \<Rightarrow> grid_row list"
  raw_laps :: "lap list"
  penalty_events :: "penalty_event list"

subsection \<open>Rows of the table \<^verbatim>\<open>grand_prix_results\<close>\<close>

text \<open>The keys of \<^verbatim>\<open>result_record\<close> (lines 140-159), which are the columns of the table.\<close>

record result_record =
  result_id :: string
  date :: int
  year :: int
  grand_prix :: string
  circuit_name :: string
  driver_number :: int
  driver_name :: string
  driver_acronym :: string
  team_name :: string
  starting_grid_position :: "int option"
  final_position :: "int option"
  points :: int
  fastest_lap :: "rat option"
  total_time_penalty :: rat
  dnf :: bool
  dns :: bool
  dsq :: bool
  created_at :: int

subsection \<open>Grand Prix results\<close>

text \<open>\<^verbatim>\<open>_calculate_points\<close> (lines 493-506); a null position is no key of the table.\<close>

definition points_system :: "int \<Rightarrow> int option" where
  "points_system = [1 \<mapsto> 25, 2 \<mapsto> 18, 3 \<mapsto> 15, 4 \<mapsto> 12, 5 \<mapsto> 10,
                    6 \<mapsto> 8, 7 \<mapsto> 6, 8 \<mapsto> 4, 9 \<mapsto> 2, 10 \<mapsto> 1]"

definition calculate_points :: "int option \<Rightarrow> bool \<Rightarrow> int" where
  "calculate_points pos has_fastest_lap =
     (let pts = (case pos of
                   None \<Rightarrow> 0
                 | Some p \<Rightarrow> (case points_system p of None \<Rightarrow> 0 | Some v \<Rightarrow> v))
      in if has_fastest_lap \<and> le_null pos 10 then pts + 1 else pts)"

text \<open>
  \<^verbatim>\<open>_get_fastest_laps\<close> (lines 477-485):
  \<^verbatim>\<open>SELECT driver_number, MIN(lap_duration) FROM raw_laps WHERE session_key = ? AND
  lap_duration IS NOT NULL GROUP BY driver_number\<close>, one row per driver with a timed lap.
  SQL leaves the order of the groups open; the caller selects by driver number only.
\<close>

fun sql_min :: "rat \<Rightarrow> rat list \<Rightarrow> rat" where
  "sql_min m [] = m"
| "sql_min m (x # xs) = sql_min (min m x) xs"

fun timed_laps :: "int \<Rightarrow> lap list \<Rightarrow> (int \<times> rat) list" where
  "timed_laps k [] = []"
| "timed_laps k (l # ls) =
     (case lap.lap_duration l of
        None \<Rightarrow> timed_laps k ls
      | Some d \<Rightarrow> if lap.session_key l = k then (lap.driver_number l, d) # timed_laps k ls
                  else timed_laps k ls)"

fun group_min :: "(int \<times> rat) list \<Rightarrow> fastest_lap_row list" where
  "group_min [] = []"
| "group_min ((dn, d) # rest) =
     \<lparr> fastest_lap_row.driver_number = dn,
       fastest_lap_row.lap_duration = sql_min d (map snd (filter (\<lambda>x. fst x = dn) rest)) \<rparr>
     # group_min (filter (\<lambda>x. fst x \<noteq> dn) rest)"

definition get_fastest_laps :: "database \<Rightarrow> int \<Rightarrow> fastest_lap_row list" where
  "get_fastest_laps db k = group_min (timed_laps k (raw_laps db))"

text \<open>
  \<^verbatim>\<open>_get_penalties\<close> (lines 487-491) returns an empty frame with the two columns, whatever
  the session: "This would need to be parsed from race control messages".
\<close>

definition get_penalties :: "database \<Rightarrow> int \<Rightarrow> penalty_row list" where
  "get_penalties db k = []"

text \<open>
  Lines 115-161, the body of the loop over the rows of \<^verbatim>\<open>session_results\<close>, when it
  does not raise: \<open>None\<close> is the \<^verbatim>\<open>continue\<close> for a driver without a row in
  \<^verbatim>\<open>drivers\<close>. \<open>now\<close> is the reading of \<^verbatim>\<open>datetime.utcnow()\<close>. The driver number is
  printed as an integer in \<^verbatim>\<open>result_id\<close>; where pandas hands the row over as floats the
  code prints \<^verbatim>\<open>1.0\<close>, which nothing below reads. The penalty sum is exact, where the
  code adds floats.
\<close>

definition get_default :: "bool option \<Rightarrow> bool" where
  "get_default v = (case v of None \<Rightarrow> False | Some b \<Rightarrow> b)"

definition build_result_record ::
  "int \<Rightarrow> int \<Rightarrow> session \<Rightarrow> driver_row list \<Rightarrow> grid_row list \<Rightarrow> fastest_lap_row list \<Rightarrow>
   penalty_row list \<Rightarrow> session_result \<Rightarrow> result_record option" where
  "build_result_record now yr sess drivers grid fastest_laps penalties result =
     (let dn = session_result.driver_number result in
      case filter (\<lambda>d. driver_row.driver_number d = dn) drivers of
        [] \<Rightarrow> None
      | driver_info # _ \<Rightarrow>
          (let starting_position =
                 (case filter (\<lambda>g. grid_row.driver_number g = dn) grid of
                    [] \<Rightarrow> None | g # _ \<Rightarrow> grid_row.position g);
               fastest_lap_time =
                 (case filter (\<lambda>f. fastest_lap_row.driver_number f = dn) fastest_laps of
                    [] \<Rightarrow> None | f # _ \<Rightarrow> Some (fastest_lap_row.lap_duration f));
               driver_penalties = filter (\<lambda>p. penalty_row.driver_number p = dn) penalties;
               total_penalty =
                 (if driver_penalties \<noteq> []
                  then sum_list (map penalty_row.penalty_seconds driver_penalties) else 0);
               pts = calculate_points (session_result.position result)
                       (fastest_lap_time \<noteq> None \<and> le_null (session_result.position result) 10)
           in Some \<lparr> result_id = str_int yr @ ''_'' @ str_int (session.race_round sess) @ ''_''
                                  @ str_int dn,
                      date = race_date sess,
                      year = yr,
                      grand_prix = meeting_name sess,
                      circuit_name = circuit_short_name sess,
                      driver_number = dn,
                      driver_name = full_name driver_info,
                      driver_acronym = name_acronym driver_info,
                      team_name = driver_row.team_name driver_info,
                      starting_grid_position = starting_position,
                      final_position = session_result.position result,
                      points = pts,
                      fastest_lap = fastest_lap_time,
                      total_time_penalty = total_penalty,
                      dnf = get_default (session_result.dnf result),
                      dns = get_default (session_result.dns result),
                      dsq = get_default (session_result.dsq result),
                      created_at = now \<rparr>))"

text \<open>
  A null position reaches line 137 as NaN when the position column of the session frame
  holds some number, and as Python's \<^verbatim>\<open>None\<close> when every position of the frame is null
  (the column then has dtype object). \<^verbatim>\<open>None <= 10\<close> raises TypeError; line 137 evaluates
  it for a driver who has passed the \<^verbatim>\<open>continue\<close> of line 121 and has a lap time, since
  \<^verbatim>\<open>and\<close> evaluates its right operand only then.
\<close>

definition position_is_none :: "session_result list \<Rightarrow> bool" where
  "position_is_none session_results =
     list_all (\<lambda>r. session_result.position r = None) session_results"

definition raises_type_error ::
  "driver_row list \<Rightarrow> fastest_lap_row list \<Rightarrow> bool \<Rightarrow> session_result \<Rightarrow> bool" where
  "raises_type_error drivers fastest_laps null_is_none result =
     (null_is_none
      \<and> filter (\<lambda>d. driver_row.driver_number d = session_result.driver_number result) drivers
          \<noteq> []
      \<and> filter (\<lambda>f. fastest_lap_row.driver_number f = session_result.driver_number result)
            fastest_laps \<noteq> [])"

text \<open>The loop of line 115; \<open>n0\<close> rows were appended before it.\<close>

fun results_loop ::
  "(nat \<Rightarrow> int) \<Rightarrow> int \<Rightarrow> session \<Rightarrow> driver_row list \<Rightarrow> grid_row list \<Rightarrow>
   fastest_lap_row list \<Rightarrow> penalty_row list \<Rightarrow> bool \<Rightarrow> session_result list \<Rightarrow> nat \<Rightarrow>
   error + result_record list" where
  "results_loop clock yr sess drivers grid fastest_laps penalties null_is_none [] n0 = Inr []"
| "results_loop clock yr sess drivers grid fastest_laps penalties null_is_none (result # rest) n0 =
     (if raises_type_error drivers fastest_laps null_is_none result then Inl TypeError
      else case build_result_record (clock n0) yr sess drivers grid fastest_laps penalties result of
        None \<Rightarrow>
          results_loop clock yr sess drivers grid fastest_laps penalties null_is_none rest n0
      | Some result_record \<Rightarrow>
          (case results_loop clock yr sess drivers grid fastest_laps penalties null_is_none rest
                  (Suc n0) of
             Inl e \<Rightarrow> Inl e
           | Inr built \<Rightarrow> Inr (result_record # built)))"

text \<open>The loop of line 91 over the race sessions, with the list \<^verbatim>\<open>results\<close>.\<close>

fun sessions_loop ::
  "(nat \<Rightarrow> int) \<Rightarrow> int \<Rightarrow> database \<Rightarrow> session list \<Rightarrow> result_record list \<Rightarrow>
   error + result_record list" where
  "sessions_loop clock yr db [] results = Inr results"
| "sessions_loop clock yr db (sess # rest) results =
     (let k = session.session_key sess;
          session_results = fetch_session_results db k
      in if session_results = [] then sessions_loop clock yr db rest results
         else let drivers = fetch_session_drivers db k
              in if drivers = [] then sessions_loop clock yr db rest results
                 else case results_loop clock yr sess drivers (fetch_starting_grid db k)
                             (get_fastest_laps db k) (get_penalties db k)
                             (position_is_none session_results) session_results
                             (length results) of
                        Inl e \<Rightarrow> Inl e
                      | Inr built \<Rightarrow> sessions_loop clock yr db rest (results @ built))"

text \<open>
  Lines 83-165, the rows of \<^verbatim>\<open>results\<close> before \<^verbatim>\<open>_add_championship_context\<close>, which
  reorders them and adds the columns of the championship context. \<open>fetched\<close> is the
  database, or the exception that one of its queries raised; lines 175-177 turn every
  exception, also the TypeError of the loop, into an empty frame.
\<close>

definition grand_prix_result_records ::
  "(nat \<Rightarrow> int) \<Rightarrow> int \<Rightarrow> error + database \<Rightarrow> result_record list" where
  "grand_prix_result_records clock yr fetched =
     (case fetched of
        Inl e \<Rightarrow> []
      | Inr db \<Rightarrow>
          (case sessions_loop clock yr db (fetch_race_sessions db yr) [] of
             Inl e \<Rightarrow> []
           | Inr results \<Rightarrow> results))"

text \<open>
  \<^verbatim>\<open>_add_championship_context\<close>, lines 511-514: the rows sorted by driver and date (a
  sort on two columns is stable) and the running sum of the points within each driver,
  \<^verbatim>\<open>groupby("driver_number")["points"].cumsum()\<close>. The columns
  \<^verbatim>\<open>drivers_championship_ranking\<close> and \<^verbatim>\<open>points_from_first\<close> of lines 516-531 are left
  out: they do not change the other columns, and their order among equal totals is that
  of an unstable sort. The running sum is an unbounded integer; the column of the code
  is a 64-bit number, far above any season total.
\<close>

record grand_prix_result = result_record +
  total_season_points :: int

fun cumsum_points :: "(int \<Rightarrow> int) \<Rightarrow> result_record list \<Rightarrow> grand_prix_result list" where
  "cumsum_points acc [] = []"
| "cumsum_points acc (r # rs) =
     (let total = acc (result_record.driver_number r) + result_record.points r
      in result_record.extend r \<lparr> total_season_points = total \<rparr>
         # cumsum_points (acc (result_record.driver_number r := total)) rs)"

definition add_championship_context :: "result_record list \<Rightarrow> grand_prix_result list" where
  "add_championship_context results_df =
     cumsum_points (\<lambda>dn. 0)
       (sort_key (\<lambda>r. (result_record.driver_number r, result_record.date r)) results_df)"

text \<open>\<^verbatim>\<open>transform_grand_prix_results\<close>, lines 63-177; an empty list is the empty frame.\<close>

definition transform_grand_prix_results ::
  "(nat \<Rightarrow> int) \<Rightarrow> int \<Rightarrow> error + database \<Rightarrow> grand_prix_result list" where
  "transform_grand_prix_results clock yr fetched =
     add_championship_context (grand_prix_result_records clock yr fetched)"

text \<open>
  Modelled from the spec: the sum of \<open>penalty_seconds\<close> over the penalty events recorded
  for a driver in a session.
\<close>

definition recorded_penalty_seconds :: "database \<Rightarrow> int \<Rightarrow> int \<Rightarrow> rat" where
  "recorded_penalty_seconds db k dn =
     sum_list (map penalty_event.penalty_seconds
       (filter (\<lambda>e. penalty_event.session_key e = k \<and> penalty_event.driver_number e = dn)
          (penalty_events db)))"

subsection \<open>Championship standings\<close>

text \<open>
  \<^verbatim>\<open>standing\<close> is the dict appended to \<^verbatim>\<open>race_standings\<close> (lines 333-341),
  \<^verbatim>\<open>standing_record\<close> the dict appended to \<^verbatim>\<open>standings_records\<close> (lines 356-372), which
  copies the seven fields of the standing. From here on the unqualified field names are
  those of the standings; the columns of a result row are written \<open>result_record.points\<close>.
\<close>

record standing =
  driver_number :: int
  driver_name :: string
  team_name :: string
  points :: int
  wins :: nat
  podiums :: nat
  points_finishes :: nat

record standing_record = standing +
  standing_id :: string
  year :: int
  race_round :: nat
  after_race :: string
  position :: nat
  points_behind_leader :: int
  points_ahead_next :: int
  created_at :: int

text \<open>
  \<^verbatim>\<open>results.groupby(["date", "grand_prix"]).first().reset_index()\<close>: one row per distinct
  (date, grand_prix), sorted by that key (groupby sorts its keys); the loop reads only the
  two key columns of a race, and its index \<^verbatim>\<open>race_idx\<close> counts from 0.
\<close>

definition races_of :: "'a result_record_scheme list \<Rightarrow> (int \<times> string) list" where
  "races_of results =
     sort (remdups (map (\<lambda>r. (result_record.date r, result_record.grand_prix r)) results))"

text \<open>Lines 305-308: the rows of one race, in the order of \<^verbatim>\<open>results\<close>.\<close>

definition race_results_of ::
  "'a result_record_scheme list \<Rightarrow> int \<times> string \<Rightarrow> 'a result_record_scheme list" where
  "race_results_of results race =
     filter (\<lambda>r. result_record.date r = fst race \<and> result_record.grand_prix r = snd race) results"

text \<open>
  \<^verbatim>\<open>cumulative_points\<close> is a dict, which keeps its keys in the order of their insertion;
  the sort below is stable, so that order is visible in the output and the dict is an
  association list. Lines 313-315: a new driver starts at 0, then the points are added.
\<close>

fun add_points :: "(int \<times> int) list \<Rightarrow> int \<Rightarrow> int \<Rightarrow> (int \<times> int) list" where
  "add_points [] k p = [(k, 0 + p)]"
| "add_points ((k', v) # kvs) k p =
     (if k' = k then (k', v + p) # kvs else (k', v) # add_points kvs k p)"

definition update_cumulative_points ::
  "(int \<times> int) list \<Rightarrow> 'a result_record_scheme list \<Rightarrow> (int \<times> int) list" where
  "update_cumulative_points cumulative_points race_results =
     foldl (\<lambda>cp result. add_points cp (result_record.driver_number result)
                                       (result_record.points result))
           cumulative_points race_results"

text \<open>\<^verbatim>\<open>frame.iloc[0]\<close> raises IndexError on an empty frame.\<close>

definition iloc0 :: "'a list \<Rightarrow> error + 'a" where
  "iloc0 xs = (case xs of [] \<Rightarrow> Inl IndexError | x # _ \<Rightarrow> Inr x)"

text \<open>Lines 319-341, the body of the loop over \<^verbatim>\<open>cumulative_points.items()\<close>.\<close>

definition build_standing ::
  "'a result_record_scheme list \<Rightarrow> int \<times> string \<Rightarrow> int \<times> int \<Rightarrow> error + standing" where
  "build_standing results race item =
     (case item of (dn, total_points) \<Rightarrow>
        (case iloc0 (filter (\<lambda>r. result_record.driver_number r = dn) results) of
           Inl e \<Rightarrow> Inl e
         | Inr driver_info \<Rightarrow>
             (let driver_results =
                    filter (\<lambda>r. result_record.driver_number r = dn
                                \<and> result_record.date r \<le> fst race) results
              in Inr \<lparr> driver_number = dn,
                       driver_name = result_record.driver_name driver_info,
                       team_name = result_record.team_name driver_info,
                       points = total_points,
                       wins = length (filter (\<lambda>r. eq_null (final_position r) 1) driver_results),
                       podiums = length (filter (\<lambda>r. le_null (final_position r) 3) driver_results),
                       points_finishes =
                         length (filter (\<lambda>r. result_record.points r > 0) driver_results) \<rparr>)))"

text \<open>A loop that appends one value per item and stops at the first exception.\<close>

fun collect :: "('a \<Rightarrow> error + 'b) \<Rightarrow> 'a list \<Rightarrow> error + 'b list" where
  "collect f [] = Inr []"
| "collect f (x # xs) =
     (case f x of
        Inl e \<Rightarrow> Inl e
      | Inr y \<Rightarrow> (case collect f xs of Inl e \<Rightarrow> Inl e | Inr ys \<Rightarrow> Inr (y # ys)))"

text \<open>
  Line 344, \<^verbatim>\<open>race_standings.sort(key=lambda x: x["points"], reverse=True)\<close>: Python's sort
  is stable, also with \<^verbatim>\<open>reverse=True\<close>, so entries with equal points keep their order.
  \<open>sort_key\<close> is a stable insertion sort; descending order is ascending order of the
  negated key.
\<close>

definition sort_points_reverse :: "standing list \<Rightarrow> standing list" where
  "sort_points_reverse race_standings = sort_key (\<lambda>x. - points x) race_standings"

text \<open>
  Lines 346-374. \<^verbatim>\<open>datetime.utcnow()\<close> reads the wall clock once per record: \<open>clock k\<close> is
  the reading at the creation of the \<open>k\<close>-th record of the run (counted from 0), and
  \<open>n0\<close> is the number of records appended before this race.
\<close>

definition standing_records ::
  "(nat \<Rightarrow> int) \<Rightarrow> int \<Rightarrow> nat \<Rightarrow> int \<times> string \<Rightarrow> standing list \<Rightarrow> nat \<Rightarrow> standing_record list" where
  "standing_records clock yr race_idx race race_standings n0 =
     (let leader_points = (if race_standings \<noteq> [] then points (race_standings ! 0) else 0)
      in map (\<lambda>(pos, standing).
                (let behind = leader_points - points standing;
                     ahead = (if pos < length race_standings
                              then points standing - points (race_standings ! pos) else 0)
                 in \<lparr> driver_number = driver_number standing,
                      driver_name = driver_name standing,
                      team_name = team_name standing,
                      points = points standing,
                      wins = wins standing,
                      podiums = podiums standing,
                      points_finishes = points_finishes standing,
                      standing_id = str_int yr @ ''_'' @ str_nat (race_idx + 1) @ ''_''
                                    @ str_int (driver_number standing),
                      year = yr,
                      race_round = race_idx + 1,
                      after_race = snd race,
                      position = pos,
                      points_behind_leader = behind,
                      points_ahead_next = ahead,
                      created_at = clock (n0 + pos - 1) \<rparr>))
             (enumerate 1 race_standings))"

text \<open>Lines 302-374: the loop over the races, with its two accumulators.\<close>

fun races_loop ::
  "(nat \<Rightarrow> int) \<Rightarrow> int \<Rightarrow> 'a result_record_scheme list \<Rightarrow> (nat \<times> int \<times> string) list \<Rightarrow>
   (int \<times> int) list \<Rightarrow> standing_record list \<Rightarrow> error + standing_record list" where
  "races_loop clock yr results [] cumulative_points standings_records = Inr standings_records"
| "races_loop clock yr results ((race_idx, race) # rest) cumulative_points standings_records =
     (let race_results = race_results_of results race;
          cumulative_points' = update_cumulative_points cumulative_points race_results
      in case collect (build_standing results race) cumulative_points' of
           Inl e \<Rightarrow> Inl e
         | Inr race_standings \<Rightarrow>
             races_loop clock yr results rest cumulative_points'
               (standings_records
                @ standing_records clock yr race_idx race (sort_points_reverse race_standings)
                    (length standings_records)))"

text \<open>
  The body of the \<^verbatim>\<open>try\<close> (lines 286-382). \<open>fetched\<close> is what
  \<^verbatim>\<open>self.database.fetch_dataframe\<close> gives for the query of line 287: the rows of the year
  in the order of the query, or the exception it raised. An empty frame is the empty list.
\<close>

definition standings_body ::
  "(nat \<Rightarrow> int) \<Rightarrow> int \<Rightarrow> error + 'a result_record_scheme list \<Rightarrow> error + standing_record list" where
  "standings_body clock yr fetched =
     (case fetched of
        Inl e \<Rightarrow> Inl e
      | Inr results \<Rightarrow>
          if results = [] then Inr []
          else races_loop clock yr results (enumerate 0 (races_of results)) [] [])"

text \<open>Lines 384-386: every exception is logged and an empty frame is returned.\<close>

definition transform_championship_standings ::
  "(nat \<Rightarrow> int) \<Rightarrow> int \<Rightarrow> error + 'a result_record_scheme list \<Rightarrow> standing_record list" where
  "transform_championship_standings clock yr fetched =
     (case standings_body clock yr fetched of Inl e \<Rightarrow> [] | Inr standings \<Rightarrow> standings)"

text \<open>The snapshot after a round: the emitted records that carry this \<open>race_round\<close>.\<close>

definition snapshot_after :: "standing_record list \<Rightarrow> nat \<Rightarrow> standing_record list" where
  "snapshot_after standings n = filter (\<lambda>s. race_round s = n) standings"

subsection \<open>The loop without its error branch\<close>

text \<open>
  \<open>standing_of\<close> is \<open>build_standing\<close> for a driver who has a row in \<^verbatim>\<open>results\<close>,
  \<open>emitted\<close> is \<open>races_loop\<close> when no lookup fails, and \<open>cumulative_after\<close> is the
  dict after a list of races. The lemmas below show that the loop never takes the error
  branch, so that it is \<open>emitted\<close>.
\<close>

definition standing_of ::
  "'a result_record_scheme list \<Rightarrow> int \<times> string \<Rightarrow> int \<times> int \<Rightarrow> standing" where
  "standing_of results race item =
     (let driver_info = hd (filter (\<lambda>r. result_record.driver_number r = fst item) results);
          driver_results = filter (\<lambda>r. result_record.driver_number r = fst item
                                      \<and> result_record.date r \<le> fst race) results
      in \<lparr> driver_number = fst item,
           driver_name = result_record.driver_name driver_info,
           team_name = result_record.team_name driver_info,
           points = snd item,
           wins = length (filter (\<lambda>r. eq_null (final_position r) 1) driver_results),
           podiums = length (filter (\<lambda>r. le_null (final_position r) 3) driver_results),
           points_finishes = length (filter (\<lambda>r. result_record.points r > 0) driver_results) \<rparr>)"

fun emitted ::
  "(nat \<Rightarrow> int) \<Rightarrow> int \<Rightarrow> 'a result_record_scheme list \<Rightarrow> (nat \<times> int \<times> string) list \<Rightarrow>
   (int \<times> int) list \<Rightarrow> nat \<Rightarrow> standing_record list" where
  "emitted clock yr results [] cp n0 = []"
| "emitted clock yr results ((race_idx, race) # rest) cp n0 =
     (let cp' = update_cumulative_points cp (race_results_of results race);
          new = standing_records clock yr race_idx race
                  (sort_points_reverse (map (standing_of results race) cp')) n0
      in new @ emitted clock yr results rest cp' (n0 + length new))"

definition cumulative_after ::
  "'a result_record_scheme list \<Rightarrow> (int \<times> string) list \<Rightarrow> (int \<times> int) list \<Rightarrow> (int \<times> int) list" where
  "cumulative_after results races cp =
     foldl (\<lambda>cp race. update_cumulative_points cp (race_results_of results race)) cp races"


text \<open>
  \<open>results_upto results R\<close> are the rows of the first \<open>R\<close> races, race by race in
  the order of the loop; \<open>driver_points rows dn\<close> is the sum of the points of the rows
  of driver \<open>dn\<close>; \<open>total_of\<close> reads the dict with default 0.
\<close>

definition results_upto :: "'a result_record_scheme list \<Rightarrow> nat \<Rightarrow> 'a result_record_scheme list" where
  "results_upto results R = concat (map (race_results_of results) (take R (races_of results)))"

definition driver_points :: "'a result_record_scheme list \<Rightarrow> int \<Rightarrow> int" where
  "driver_points rows dn =
     sum_list (map result_record.points (filter (\<lambda>r. result_record.driver_number r = dn) rows))"

definition total_of :: "(int \<times> int) list \<Rightarrow> int \<Rightarrow> int" where
  "total_of cp k = (case map_of cp k of None \<Rightarrow> 0 | Some v \<Rightarrow> v)"

text \<open>
  \<open>first_index x xs\<close> is the index of the first occurrence of \<open>x\<close> in \<open>xs\<close> (the
  length of \<open>xs\<close> when there is none); \<open>first_seen xs\<close> are the elements of \<open>xs\<close>
  without repetition, in the order of their first occurrence, which is the key order of
  a dict filled from \<open>xs\<close>.
\<close>

definition first_index :: "'a \<Rightarrow> 'a list \<Rightarrow> nat" where
  "first_index x xs = length (takeWhile (\<lambda>y. y \<noteq> x) xs)"

fun first_seen :: "'a list \<Rightarrow> 'a list" where
  "first_seen [] = []"
| "first_seen (x # xs) = x # filter (\<lambda>y. y \<noteq> x) (first_seen xs)"

text \<open>A record with its \<open>created_at\<close> blanked, to compare the records of two runs.\<close>

definition without_created_at :: "standing_record \<Rightarrow> standing_record" where
  "without_created_at s = s\<lparr>created_at := 0\<rparr>"

text \<open>
  \<open>race_key\<close> is the pair that identifies the race of a row. \<open>round_number results r\<close>
  says which race of the season the race of row \<open>r\<close> is in chronological order: the
  number of distinct races of the frame that are not later than it (by date, then by
  grand prix name). It is written from the rows alone, without the loop's \<open>races_of\<close>.
\<close>

definition race_key :: "'a result_record_scheme \<Rightarrow> int \<times> string" where
  "race_key r = (result_record.date r, result_record.grand_prix r)"

definition round_number :: "'a result_record_scheme list \<Rightarrow> 'a result_record_scheme \<Rightarrow> nat" where
  "round_number results r =
     length (filter (\<lambda>k. k \<le> race_key r) (remdups (map race_key results)))"

text \<open>The round and the race name that a record carries.\<close>

definition round_label :: "standing_record \<Rightarrow> nat \<times> string" where
  "round_label s = (race_round s, after_race s)"

text \<open>
  \<open>with_dsq db f\<close> is the database with the \<open>dsq\<close> flag of every classification row
  \<open>r\<close> replaced by \<open>f r\<close>; \<open>without_dsq\<close> blanks the flag of a built record.
\<close>

definition with_dsq :: "database \<Rightarrow> (session_result \<Rightarrow> bool option) \<Rightarrow> database" where
  "with_dsq db f =
     db \<lparr> fetch_session_results :=
            (\<lambda>k. map (\<lambda>r. r \<lparr> session_result.dsq := f r \<rparr>) (fetch_session_results db k)) \<rparr>"

definition without_dsq :: "result_record \<Rightarrow> result_record" where
  "without_dsq r = r \<lparr> result_record.dsq := False \<rparr>"

subsection \<open>Example data\<close>

definition example_result ::
  "int \<Rightarrow> string \<Rightarrow> int \<Rightarrow> string \<Rightarrow> string \<Rightarrow> int option \<Rightarrow> int \<Rightarrow> result_record" where
  "example_result d gp dn name team pos pts =
     \<lparr> result_id = ''2023_'' @ str_int d @ ''_'' @ str_int dn, date = d,
       result_record.year = 2023, grand_prix = gp, circuit_name = [],
       result_record.driver_number = dn, result_record.driver_name = name,
       driver_acronym = [], result_record.team_name = team,
       starting_grid_position = None, final_position = pos, result_record.points = pts,
       fastest_lap = None, total_time_penalty = 0, dnf = False, dns = False, dsq = False,
       result_record.created_at = 0 \<rparr>"

definition example_clock :: "nat \<Rightarrow> int" where
  "example_clock k = 1000 + int k"

definition example_season :: "result_record list" where
  "example_season =
     [example_result 1 ''Bahrain'' 1 ''A'' ''Red'' (Some 1) 26,
      example_result 1 ''Bahrain'' 3 ''C'' ''Red'' (Some 2) 18,
      example_result 1 ''Bahrain'' 2 ''B'' ''Blue'' (Some 11) 0,
      example_result 2 ''Jeddah'' 2 ''B'' ''Blue'' (Some 1) 25,
      example_result 2 ''Jeddah'' 1 ''A'' ''Green'' (Some 3) 15]"

definition tie_season :: "result_record list" where
  "tie_season =
     [example_result 1 ''Bahrain'' 2 ''B'' ''Blue'' (Some 3) 15,
      example_result 2 ''Jeddah'' 1 ''A'' ''Red'' (Some 1) 25,
      example_result 2 ''Jeddah'' 2 ''B'' ''Blue'' (Some 5) 10]"

definition later_clock :: "nat \<Rightarrow> int" where
  "later_clock k = 2000 + int k"

definition example_session :: session where
  "example_session =
     \<lparr> session.session_key = 9001, session.meeting_key = 1, session.race_round = 1,
       session.race_date = 1, session.meeting_name = ''Bahrain'',
       session.circuit_short_name = ''Sakhir'' \<rparr>"

definition example_lap :: "int \<Rightarrow> rat option \<Rightarrow> lap" where
  "example_lap dn d = \<lparr> lap.session_key = 9001, lap.driver_number = dn, lap.lap_duration = d \<rparr>"

definition example_db :: database where
  "example_db =
     \<lparr> fetch_race_sessions = (\<lambda>y. if y = 2023 then [example_session] else []),
       fetch_session_results = (\<lambda>k. if k = 9001 then
          [\<lparr> session_result.driver_number = 1, session_result.position = Some 1,
              dnf = Some False, dns = Some False, dsq = Some False \<rparr>,
           \<lparr> session_result.driver_number = 2, session_result.position = Some 2,
              dnf = Some False, dns = Some False, dsq = Some False \<rparr>] else []),
       fetch_session_drivers = (\<lambda>k. if k = 9001 then
          [\<lparr> driver_row.driver_number = 1, full_name = ''A'', name_acronym = ''AAA'',
              driver_row.team_name = ''Red'' \<rparr>,
           \<lparr> driver_row.driver_number = 2, full_name = ''B'', name_acronym = ''BBB'',
              driver_row.team_name = ''Blue'' \<rparr>] else []),
       fetch_starting_grid = (\<lambda>k. []),
       raw_laps = [example_lap 1 (Some 91), example_lap 2 (Some 92), example_lap 1 (Some 90),
                   example_lap 2 None, example_lap 2 (Some 91)],
       penalty_events = [\<lparr> penalty_event.session_key = 9001, penalty_event.driver_number = 2,
                           penalty_event.penalty_seconds = 5 \<rparr>] \<rparr>"

definition dsq_db :: database where
  "dsq_db = example_db \<lparr> fetch_session_results := (\<lambda>k. if k = 9001 then
          [\<lparr> session_result.driver_number = 1, session_result.position = Some 1,
              dnf = Some False, dns = Some False, dsq = Some True \<rparr>,
           \<lparr> session_result.driver_number = 2, session_result.position = None,
              dnf = Some False, dns = Some False, dsq = Some True \<rparr>] else []) \<rparr>"

definition example_penalties :: "penalty_row list" where
  "example_penalties =
     [\<lparr> penalty_row.driver_number = 1, penalty_row.penalty_seconds = 5 \<rparr>,
      \<lparr> penalty_row.driver_number = 2, penalty_row.penalty_seconds = 3 \<rparr>,
      \<lparr> penalty_row.driver_number = 1, penalty_row.penalty_seconds = 10 \<rparr>]"

definition example_classification :: session_result where
  "example_classification =
     \<lparr> session_result.driver_number = 1, session_result.position = Some 1,
       dnf = Some False, dns = Some False, dsq = Some False \<rparr>"

definition clear_dsq :: "session_result \<Rightarrow> bool option" where
  "clear_dsq r = Some False"

text \<open>
  The rows of race 1 fed a second time under other result ids, in the order of the query
  (by date, then final position).
\<close>

definition fed_again :: "result_record \<Rightarrow> result_record" where
  "fed_again r = r \<lparr> result_id := ''2023_7_'' @ str_int (result_record.driver_number r) \<rparr>"

definition is_fed_again :: "result_record \<Rightarrow> bool" where
  "is_fed_again r = (take 7 (result_id r) = ''2023_7_'')"

definition refed_season :: "result_record list" where
  "refed_season =
     [example_result 1 ''Bahrain'' 1 ''A'' ''Red'' (Some 1) 26,
      fed_again (example_result 1 ''Bahrain'' 1 ''A'' ''Red'' (Some 1) 26),
      example_result 1 ''Bahrain'' 3 ''C'' ''Red'' (Some 2) 18,
      fed_again (example_result 1 ''Bahrain'' 3 ''C'' ''Red'' (Some 2) 18),
      example_result 1 ''Bahrain'' 2 ''B'' ''Blue'' (Some 11) 0,
      fed_again (example_result 1 ''Bahrain'' 2 ''B'' ''Blue'' (Some 11) 0),
      example_result 2 ''Jeddah'' 2 ''B'' ''Blue'' (Some 1) 25,
      example_result 2 ''Jeddah'' 1 ''A'' ''Green'' (Some 3) 15]"

section \<open>Properties of the standings loop\<close>

lemma build_standing_present:
  "fst item \<in> result_record.driver_number ` set results \<Longrightarrow>
   build_standing results race item = Inr (standing_of results race item)"
proof -
  assume "fst item \<in> result_record.driver_number ` set results"
  then have "filter (\<lambda>r. result_record.driver_number r = fst item) results \<noteq> []"
    by (auto simp: filter_empty_conv)
  then obtain x xs where "filter (\<lambda>r. result_record.driver_number r = fst item) results = x # xs"
    by (cases "filter (\<lambda>r. result_record.driver_number r = fst item) results") auto
  then show ?thesis
    by (cases item) (simp add: build_standing_def standing_of_def iloc0_def Let_def)
qed

lemma collect_build_standing:
  "fst ` set cp \<subseteq> result_record.driver_number ` set results \<Longrightarrow>
   collect (build_standing results race) cp = Inr (map (standing_of results race) cp)"
  by (induction cp) (auto simp: build_standing_present)

lemma keys_add_points:
  "map fst (add_points cp k p) = (if k \<in> set (map fst cp) then map fst cp else map fst cp @ [k])"
  by (induction cp k p rule: add_points.induct) auto

lemma set_keys_add_points: "fst ` set (add_points cp k p) = insert k (fst ` set cp)"
proof -
  have "set (map fst (add_points cp k p)) = insert k (set (map fst cp))"
    unfolding keys_add_points by auto
  then show ?thesis by simp
qed

lemma set_keys_update:
  "fst ` set (update_cumulative_points cp rs) =
   fst ` set cp \<union> result_record.driver_number ` set rs"
  unfolding update_cumulative_points_def
  by (induction rs arbitrary: cp) (simp_all add: set_keys_add_points)

lemma races_loop_emitted:
  "fst ` set cp \<subseteq> result_record.driver_number ` set results \<Longrightarrow>
   races_loop clock yr results es cp recs = Inr (recs @ emitted clock yr results es cp (length recs))"
proof (induction es arbitrary: cp recs)
  case Nil
  then show ?case by simp
next
  case (Cons e es)
  obtain i race where e: "e = (i, race)" by (cases e)
  let ?cp = "update_cumulative_points cp (race_results_of results race)"
  have sub: "fst ` set ?cp \<subseteq> result_record.driver_number ` set results"
    using Cons.prems set_keys_update [of cp "race_results_of results race"]
    by (auto simp: race_results_of_def)
  show ?case
    using Cons.IH [OF sub] collect_build_standing [OF sub]
    by (simp add: e Let_def)
qed

lemma body_emitted:
  "standings_body clock yr (Inr results) =
   Inr (emitted clock yr results (enumerate 0 (races_of results)) [] 0)"
proof (cases "results = []")
  case True
  then show ?thesis by (simp add: standings_body_def races_of_def)
next
  case False
  then show ?thesis
    using races_loop_emitted [of "[]" results clock yr "enumerate 0 (races_of results)" "[]"]
    by (simp add: standings_body_def)
qed


lemma length_standing_records [simp]:
  "length (standing_records clock yr i race xs m) = length xs"
  by (simp add: standing_records_def)

lemma nth_standing_records:
  assumes "k < length xs"
  shows "standing_records clock yr i race xs m ! k =
     \<lparr> driver_number = driver_number (xs ! k),
       driver_name = driver_name (xs ! k),
       team_name = team_name (xs ! k),
       points = points (xs ! k),
       wins = wins (xs ! k),
       podiums = podiums (xs ! k),
       points_finishes = points_finishes (xs ! k),
       standing_id = str_int yr @ ''_'' @ str_nat (i + 1) @ ''_'' @ str_int (driver_number (xs ! k)),
       year = yr,
       race_round = i + 1,
       after_race = snd race,
       position = k + 1,
       points_behind_leader = points (xs ! 0) - points (xs ! k),
       points_ahead_next = (if k + 1 < length xs then points (xs ! k) - points (xs ! (k + 1)) else 0),
       created_at = clock (m + k) \<rparr>"
proof -
  have ne: "xs \<noteq> []" using assms by auto
  have "enumerate 1 xs ! k = (1 + k, xs ! k)"
    using assms by (simp add: nth_enumerate_eq)
  then show ?thesis
    using assms ne by (simp add: standing_records_def Let_def)
qed

lemma race_round_standing_records:
  "s \<in> set (standing_records clock yr i race xs m) \<Longrightarrow> race_round s = i + 1"
  by (auto simp: standing_records_def Let_def)

lemma race_round_emitted:
  "s \<in> set (emitted clock yr results (enumerate n races) cp m) \<Longrightarrow>
   n < race_round s \<and> race_round s \<le> n + length races"
proof (induction races arbitrary: n cp m)
  case Nil
  then show ?case by simp
next
  case (Cons r rs)
  then show ?case
    by (fastforce simp: Let_def dest: race_round_standing_records)
qed

lemma snapshot_emitted:
  "j < length races \<Longrightarrow>
   \<exists>m. snapshot_after (emitted clock yr results (enumerate n races) cp n0) (n + j + 1) =
       standing_records clock yr (n + j) (races ! j)
         (sort_points_reverse (map (standing_of results (races ! j))
            (cumulative_after results (take (Suc j) races) cp))) m"
proof (induction races arbitrary: n cp n0 j)
  case Nil
  then show ?case by simp
next
  case (Cons r rs)
  let ?cp = "update_cumulative_points cp (race_results_of results r)"
  let ?new = "standing_records clock yr n r (sort_points_reverse (map (standing_of results r) ?cp)) n0"
  let ?rest = "emitted clock yr results (enumerate (Suc n) rs) ?cp (n0 + length ?new)"
  have em: "emitted clock yr results (enumerate n (r # rs)) cp n0 = ?new @ ?rest"
    by (simp add: Let_def)
  show ?case
  proof (cases j)
    case 0
    have a: "filter (\<lambda>s. race_round s = n + 1) ?new = ?new"
      by (rule filter_True) (auto dest: race_round_standing_records)
    have b: "filter (\<lambda>s. race_round s = n + 1) ?rest = []"
      by (auto simp: filter_empty_conv dest: race_round_emitted)
    show ?thesis
      unfolding em snapshot_after_def using a b
      by (auto simp: 0 cumulative_after_def)
  next
    case (Suc j')
    then have j': "j' < length rs" using Cons.prems by simp
    have a: "filter (\<lambda>s. race_round s = n + j + 1) ?new = []"
      using Suc by (auto simp: filter_empty_conv dest: race_round_standing_records)
    from Cons.IH [OF j', of "Suc n" ?cp "n0 + length ?new"]
    obtain m where m: "snapshot_after ?rest (Suc n + j' + 1) =
       standing_records clock yr (Suc n + j') (rs ! j')
         (sort_points_reverse (map (standing_of results (rs ! j'))
            (cumulative_after results (take (Suc j') rs) ?cp))) m"
      by blast
    show ?thesis
      unfolding em using a m
      by (auto simp: snapshot_after_def Suc cumulative_after_def)
  qed
qed

lemma snapshot_emitted_outside:
  "R = 0 \<or> length races < R \<Longrightarrow>
   snapshot_after (emitted clock yr results (enumerate 0 races) cp n0) R = []"
  by (auto simp: snapshot_after_def filter_empty_conv dest: race_round_emitted)


lemma transform_emitted:
  "transform_championship_standings clock yr (Inr results) =
   emitted clock yr results (enumerate 0 (races_of results)) [] 0"
  by (simp add: transform_championship_standings_def body_emitted)

lemma snapshot_transform:
  fixes results :: "'a result_record_scheme list"
  shows "snapshot_after (transform_championship_standings clock yr (Inr results)) R = [] \<or>
   (\<exists>j m. R = j + 1 \<and> j < length (races_of results) \<and>
      snapshot_after (transform_championship_standings clock yr (Inr results)) R =
      standing_records clock yr j (races_of results ! j)
        (sort_points_reverse (map (standing_of results (races_of results ! j))
           (cumulative_after results (take R (races_of results)) []))) m)"
proof (cases "R = 0 \<or> length (races_of results) < R")
  case True
  then show ?thesis
    unfolding transform_emitted by (simp add: snapshot_emitted_outside)
next
  case False
  then obtain j where j: "R = j + 1" "j < length (races_of results)"
    by (cases R) auto
  from snapshot_emitted [OF j(2), of clock yr results 0 "[]" 0]
  show ?thesis
    unfolding transform_emitted using j by auto
qed

lemma sort_points_reverse_nth_mono:
  "i \<le> j \<Longrightarrow> j < length xs \<Longrightarrow>
   points (sort_points_reverse xs ! j) \<le> points (sort_points_reverse xs ! i)"
proof -
  assume ij: "i \<le> j" "j < length xs"
  have "sorted (map (\<lambda>x. - points x) (sort_points_reverse xs))"
    by (simp add: sort_points_reverse_def)
  then have "map (\<lambda>x. - points x) (sort_points_reverse xs) ! i
        \<le> map (\<lambda>x. - points x) (sort_points_reverse xs) ! j"
    using ij by (intro sorted_nth_mono) (simp_all add: sort_points_reverse_def)
  then show ?thesis
    using ij by (simp add: sort_points_reverse_def)
qed

lemma length_sort_points_reverse [simp]: "length (sort_points_reverse xs) = length xs"
  by (simp add: sort_points_reverse_def)


lemma update_append:
  "update_cumulative_points cp (xs @ ys) =
   update_cumulative_points (update_cumulative_points cp xs) ys"
  by (simp add: update_cumulative_points_def)

lemma cumulative_after_concat:
  "cumulative_after results races cp =
   update_cumulative_points cp (concat (map (race_results_of results) races))"
proof (induction races arbitrary: cp)
  case Nil
  then show ?case by (simp add: cumulative_after_def update_cumulative_points_def)
next
  case (Cons r rs)
  then show ?case by (simp add: cumulative_after_def update_append)
qed

lemma distinct_keys_add_points:
  "distinct (map fst cp) \<Longrightarrow> distinct (map fst (add_points cp k p))"
  by (simp add: keys_add_points)

lemma distinct_keys_update:
  "distinct (map fst cp) \<Longrightarrow> distinct (map fst (update_cumulative_points cp rs))"
  unfolding update_cumulative_points_def
  by (induction rs arbitrary: cp) (simp_all add: distinct_keys_add_points)

lemma total_of_add_points:
  "total_of (add_points cp k p) d = (if d = k then total_of cp k + p else total_of cp d)"
  by (induction cp k p rule: add_points.induct) (auto simp: total_of_def)

lemma total_of_update:
  "total_of (update_cumulative_points cp rs) d = total_of cp d + driver_points rs d"
  unfolding update_cumulative_points_def
  by (induction rs arbitrary: cp) (auto simp: total_of_add_points driver_points_def)

lemma item_of_update:
  assumes "(d, t) \<in> set (update_cumulative_points [] rs)"
  shows "t = driver_points rs d"
proof -
  have "distinct (map fst (update_cumulative_points [] rs))"
    by (rule distinct_keys_update) simp
  then have "map_of (update_cumulative_points [] rs) d = Some t"
    using assms by simp
  then have "total_of (update_cumulative_points [] rs) d = t"
    by (simp add: total_of_def)
  moreover have "total_of (update_cumulative_points [] rs) d = total_of [] d + driver_points rs d"
    by (rule total_of_update)
  moreover have "total_of [] d = 0" by (simp add: total_of_def)
  ultimately show ?thesis by simp
qed

lemma snapshot_in_range:
  fixes results :: "'a result_record_scheme list"
  assumes "1 \<le> R" "R \<le> length (races_of results)"
  shows "\<exists>m. snapshot_after (transform_championship_standings clock yr (Inr results)) R =
      standing_records clock yr (R - 1) (races_of results ! (R - 1))
        (sort_points_reverse (map (standing_of results (races_of results ! (R - 1)))
           (update_cumulative_points [] (results_upto results R)))) m"
proof -
  from assms obtain j where j: "R = Suc j" "j < length (races_of results)"
    by (cases R) auto
  from snapshot_emitted [OF j(2), of clock yr results 0 "[]" 0]
  show ?thesis
    unfolding transform_emitted using j
    by (simp add: cumulative_after_concat results_upto_def)
qed

lemma snapshot_out_of_range:
  fixes results :: "'a result_record_scheme list"
  assumes "R = 0 \<or> length (races_of results) < R"
  shows "snapshot_after (transform_championship_standings clock yr (Inr results)) R = []"
  unfolding transform_emitted using assms by (rule snapshot_emitted_outside)

lemma standing_fields_standing_records:
  "map standing.truncate (standing_records clock yr i race xs m) = xs"
  by (rule nth_equalityI) (simp_all add: nth_standing_records standing.truncate_def)

lemma set_sort_points_reverse [simp]: "set (sort_points_reverse xs) = set xs"
  by (simp add: sort_points_reverse_def)

lemma snapshot_entry:
  fixes results :: "'a result_record_scheme list"
  assumes "s \<in> set (snapshot_after (transform_championship_standings clock yr (Inr results)) R)"
  shows "1 \<le> R \<and> R \<le> length (races_of results) \<and>
         (\<exists>item \<in> set (update_cumulative_points [] (results_upto results R)).
            standing.truncate s = standing_of results (races_of results ! (R - 1)) item)"
proof -
  have R: "1 \<le> R \<and> R \<le> length (races_of results)"
    using assms snapshot_out_of_range [of R results clock yr] by fastforce
  then obtain m where m: "snapshot_after (transform_championship_standings clock yr (Inr results)) R =
      standing_records clock yr (R - 1) (races_of results ! (R - 1))
        (sort_points_reverse (map (standing_of results (races_of results ! (R - 1)))
           (update_cumulative_points [] (results_upto results R)))) m"
    using snapshot_in_range [of R results clock yr] by blast
  have "standing.truncate s \<in> set (map standing.truncate
          (snapshot_after (transform_championship_standings clock yr (Inr results)) R))"
    using assms by simp
  then have "standing.truncate s \<in> standing_of results (races_of results ! (R - 1)) `
       set (update_cumulative_points [] (results_upto results R))"
    unfolding m standing_fields_standing_records by simp
  then show ?thesis using R by blast
qed

lemma truncate_fields:
  "standing.truncate s = x \<Longrightarrow>
   driver_number s = driver_number x \<and> driver_name s = driver_name x \<and> team_name s = team_name x
   \<and> points s = points x \<and> wins s = wins x \<and> podiums s = podiums x
   \<and> points_finishes s = points_finishes x"
  by (auto simp: standing.truncate_def)

lemma points_snapshot:
  fixes results :: "'a result_record_scheme list"
  assumes "s \<in> set (snapshot_after (transform_championship_standings clock yr (Inr results)) R)"
  shows "points s = driver_points (results_upto results R) (driver_number s)"
proof -
  from snapshot_entry [OF assms] obtain item where
    item: "item \<in> set (update_cumulative_points [] (results_upto results R))"
    and s: "standing.truncate s = standing_of results (races_of results ! (R - 1)) item"
    by blast
  have f: "driver_number s = fst item" "points s = snd item"
    using truncate_fields [OF s] by (simp_all add: standing_of_def Let_def)
  have "snd item = driver_points (results_upto results R) (fst item)"
    using item_of_update [of "fst item" "snd item"] item by simp
  then show ?thesis using f by simp
qed


lemma driver_points_append:
  "driver_points (xs @ ys) d = driver_points xs d + driver_points ys d"
  by (simp add: driver_points_def)

lemma driver_points_nonneg:
  "\<forall>r\<in>set ys. 0 \<le> result_record.points r \<Longrightarrow> 0 \<le> driver_points ys d"
  unfolding driver_points_def by (induction ys) auto


lemma set_race_results_of: "set (race_results_of results race) \<subseteq> set results"
  by (auto simp: race_results_of_def)

lemma results_upto_le:
  assumes "R \<le> R'"
  shows "\<exists>more. results_upto results R' = results_upto results R @ more \<and> set more \<subseteq> set results"
proof -
  let ?races = "races_of results"
  have "take R' ?races = take R ?races @ take (R' - R) (drop R ?races)"
    using assms by (metis le_add_diff_inverse take_add)
  then have "results_upto results R' = results_upto results R
       @ concat (map (race_results_of results) (take (R' - R) (drop R ?races)))"
    by (simp add: results_upto_def)
  moreover have "set (concat (map (race_results_of results) (take (R' - R) (drop R ?races))))
       \<subseteq> set results"
    using set_race_results_of by fastforce
  ultimately show ?thesis by blast
qed

lemma results_upto_Suc:
  "j < length (races_of results) \<Longrightarrow>
   results_upto results (Suc j) =
   results_upto results j @ race_results_of results (races_of results ! j)"
  by (simp add: results_upto_def take_Suc_conv_app_nth)

lemma driver_number_truncate [simp]:
  "driver_number (standing.truncate s) = driver_number s"
  by (simp add: standing.truncate_def)

lemma driver_number_standing_of [simp]:
  "driver_number (standing_of results race item) = fst item"
  by (simp add: standing_of_def Let_def)

lemma drivers_standing_records:
  "map driver_number (standing_records clock yr i race xs m) = map driver_number xs"
  by (rule nth_equalityI) (simp_all add: nth_standing_records)

lemma positions_standing_records:
  "map position (standing_records clock yr i race xs m) = [1..<length xs + 1]"
proof (rule nth_equalityI)
  show "length (map position (standing_records clock yr i race xs m)) = length [1..<length xs + 1]"
    by (simp del: upt_Suc)
next
  fix k assume "k < length (map position (standing_records clock yr i race xs m))"
  then have k: "k < length xs" by simp
  then have "[1..<length xs + 1] ! k = 1 + k" by (intro nth_upt) simp
  then show "map position (standing_records clock yr i race xs m) ! k = [1..<length xs + 1] ! k"
    using k by (simp add: nth_standing_records del: upt_Suc)
qed

lemma distinct_map_sort_points_reverse:
  "distinct (map f (sort_points_reverse xs)) = distinct (map f xs)"
  by (simp add: distinct_map sort_points_reverse_def)

lemma drivers_of_snapshot:
  fixes results :: "'a result_record_scheme list"
  assumes "1 \<le> R" "R \<le> length (races_of results)"
    and "snaps = snapshot_after (transform_championship_standings clock yr (Inr results)) R"
  shows "distinct (map driver_number snaps)"
    and "set (map driver_number snaps) = result_record.driver_number ` set (results_upto results R)"
    and "map position snaps = [1..<length snaps + 1]"
proof -
  let ?cp = "update_cumulative_points [] (results_upto results R)"
  let ?xs = "map (standing_of results (races_of results ! (R - 1))) ?cp"
  from snapshot_in_range [OF assms(1,2), of clock yr] assms(3)
  obtain m where m: "snaps = standing_records clock yr (R - 1) (races_of results ! (R - 1))
        (sort_points_reverse ?xs) m"
    by auto
  have keys: "map driver_number ?xs = map fst ?cp" by simp
  have d: "distinct (map fst ?cp)" by (rule distinct_keys_update) simp
  show "distinct (map driver_number snaps)"
    unfolding m drivers_standing_records distinct_map_sort_points_reverse keys by (rule d)
  have "set (map driver_number (sort_points_reverse ?xs)) = set (map driver_number ?xs)"
    by (simp only: set_map set_sort_points_reverse)
  also have "\<dots> = set (map fst ?cp)" by (simp only: keys)
  also have "\<dots> = fst ` set ?cp" by simp
  also have "\<dots> = result_record.driver_number ` set (results_upto results R)"
    by (simp add: set_keys_update)
  finally show "set (map driver_number snaps) = result_record.driver_number ` set (results_upto results R)"
    unfolding m drivers_standing_records .
  show "map position snaps = [1..<length snaps + 1]"
    unfolding m positions_standing_records by simp
qed

lemma first_of_sorted:
  assumes "filter P xs = r # rest" "sorted (map f xs)" "r' \<in> set xs" "P r'"
  shows "f r \<le> f r'"
proof -
  from assms(1) obtain us vs where xs: "xs = us @ r # vs" "\<forall>u\<in>set us. \<not> P u"
    by (auto simp: filter_eq_Cons_iff)
  then have "r' = r \<or> r' \<in> set vs" using assms(3,4) by auto
  moreover have "\<forall>v\<in>set vs. f r \<le> f v"
    using assms(2) unfolding xs(1) by (auto simp: sorted_append)
  ultimately show ?thesis by auto
qed

lemma first_index_Cons:
  "first_index a (x # xs) = (if x = a then 0 else Suc (first_index a xs))"
  by (simp add: first_index_def)

lemma first_index_filter:
  "P a \<Longrightarrow> P b \<Longrightarrow>
   (first_index a (filter P ys) < first_index b (filter P ys)) = (first_index a ys < first_index b ys)"
  by (induction ys) (auto simp: first_index_Cons first_index_def)

lemma first_index_first_seen:
  "(first_index a (first_seen xs) < first_index b (first_seen xs)) = (first_index a xs < first_index b xs)"
proof (induction xs)
  case Nil
  then show ?case by simp
next
  case (Cons x xs)
  show ?case
  proof (cases "a = x \<or> b = x")
    case True
    then show ?thesis by (auto simp: first_index_Cons)
  next
    case False
    then have "(first_index a (filter (\<lambda>y. y \<noteq> x) (first_seen xs))
                < first_index b (filter (\<lambda>y. y \<noteq> x) (first_seen xs)))
             = (first_index a (first_seen xs) < first_index b (first_seen xs))"
      by (intro first_index_filter) auto
    then show ?thesis using False Cons.IH by (simp add: first_index_Cons)
  qed
qed

lemma first_index_nth:
  "distinct ys \<Longrightarrow> i < length ys \<Longrightarrow> first_index (ys ! i) ys = i"
proof (induction ys arbitrary: i)
  case Nil
  then show ?case by simp
next
  case (Cons y ys)
  then show ?case by (cases i) (auto simp: first_index_Cons)
qed

lemma first_index_map:
  "inj_on f (insert a (set xs)) \<Longrightarrow> first_index (f a) (map f xs) = first_index a xs"
proof (induction xs)
  case Nil
  then show ?case by (simp add: first_index_def)
next
  case (Cons x xs)
  then have inj: "inj_on f (insert a (set xs))" by (auto simp: inj_on_def)
  have "(f x = f a) = (x = a)" using Cons.prems by (auto simp: inj_on_def)
  then show ?case using Cons.IH [OF inj] by (simp add: first_index_Cons)
qed

lemma set_first_seen [simp]: "set (first_seen xs) = set xs"
  by (induction xs) auto

lemma keys_update_first_seen:
  "map fst (update_cumulative_points cp rs) =
   map fst cp @ filter (\<lambda>k. k \<notin> set (map fst cp)) (first_seen (map result_record.driver_number rs))"
  unfolding update_cumulative_points_def
proof (induction rs arbitrary: cp)
  case Nil
  then show ?case by simp
next
  case (Cons r rs)
  let ?k = "result_record.driver_number r"
  show ?case
  proof (cases "?k \<in> set (map fst cp)")
    case True
    then have "filter (\<lambda>k. k \<notin> set (map fst cp)) (filter (\<lambda>y. y \<noteq> ?k) (first_seen (map result_record.driver_number rs)))
       = filter (\<lambda>k. k \<notin> set (map fst cp)) (first_seen (map result_record.driver_number rs))"
      unfolding filter_filter by (intro filter_cong) (auto intro: rev_image_eqI)
    then show ?thesis using True Cons.IH [of "add_points cp ?k (result_record.points r)"]
      by (simp add: keys_add_points)
  next
    case False
    have "filter (\<lambda>k. k \<notin> set (map fst cp @ [?k])) (first_seen (map result_record.driver_number rs))
       = filter (\<lambda>k. k \<notin> set (map fst cp)) (filter (\<lambda>y. y \<noteq> ?k) (first_seen (map result_record.driver_number rs)))"
      unfolding filter_filter by (intro filter_cong) auto
    then show ?thesis using False Cons.IH [of "add_points cp ?k (result_record.points r)"]
      by (simp add: keys_add_points)
  qed
qed

lemma stable_order:
  fixes xs :: "standing list"
  assumes "distinct xs" "i < j" "j < length xs"
    and "points (sort_points_reverse xs ! i) = points (sort_points_reverse xs ! j)"
  shows "first_index (sort_points_reverse xs ! i) xs < first_index (sort_points_reverse xs ! j) xs"
proof -
  let ?ys = "sort_points_reverse xs"
  let ?a = "?ys ! i" and ?b = "?ys ! j"
  let ?P = "\<lambda>y. - points y = - points ?a"
  have d: "distinct ?ys" using assms(1) by (simp add: sort_points_reverse_def)
  have "first_index ?a ?ys < first_index ?b ?ys"
    using assms(2,3) d by (simp add: first_index_nth)
  then have "first_index ?a (filter ?P ?ys) < first_index ?b (filter ?P ?ys)"
    using assms(4) by (subst first_index_filter) simp_all
  moreover have "filter ?P ?ys = filter ?P xs"
    unfolding sort_points_reverse_def by (rule sort_key_stable)
  ultimately have "first_index ?a (filter ?P xs) < first_index ?b (filter ?P xs)"
    by simp
  then show ?thesis
    using assms(4) by (subst (asm) first_index_filter) simp_all
qed

lemma standing_records_without_created_at:
  "map without_created_at (standing_records clock yr i race xs m) =
   map without_created_at (standing_records clock' yr i race xs m')"
  by (rule nth_equalityI) (simp_all add: nth_standing_records without_created_at_def)

lemma set_races_of:
  "set (races_of results) = (\<lambda>r. (result_record.date r, result_record.grand_prix r)) ` set results"
  by (simp add: races_of_def)

lemma races_of_append:
  assumes "\<forall>a\<in>set earlier. \<forall>b\<in>set later. result_record.date a < result_record.date b"
  shows "races_of (earlier @ later) = races_of earlier @ races_of later"
proof (rule sorted_distinct_set_unique)
  show "sorted (races_of (earlier @ later))" by (simp add: races_of_def)
  show "distinct (races_of (earlier @ later))" by (simp add: races_of_def)
  have le: "\<forall>x\<in>set (races_of earlier). \<forall>y\<in>set (races_of later). x < y"
    using assms unfolding set_races_of by (auto simp: less_prod_def)
  have "sorted (races_of earlier)" "sorted (races_of later)" by (simp_all add: races_of_def)
  then show "sorted (races_of earlier @ races_of later)"
    using le by (auto simp: sorted_append intro: less_imp_le)
  have "distinct (races_of earlier)" "distinct (races_of later)" by (simp_all add: races_of_def)
  moreover have "set (races_of earlier) \<inter> set (races_of later) = {}"
    using le by fastforce
  ultimately show "distinct (races_of earlier @ races_of later)" by simp
  show "set (races_of (earlier @ later)) = set (races_of earlier @ races_of later)"
    unfolding set_races_of set_append by auto
qed

lemma race_results_of_earlier:
  assumes "\<forall>a\<in>set earlier. \<forall>b\<in>set later. result_record.date a < result_record.date b"
    and "race \<in> set (races_of earlier)"
  shows "race_results_of (earlier @ later) race = race_results_of earlier race"
proof -
  from assms(2) obtain a where a: "a \<in> set earlier" "fst race = result_record.date a"
    unfolding set_races_of by auto
  have "filter (\<lambda>r. result_record.date r = fst race \<and> result_record.grand_prix r = snd race) later = []"
    using assms(1) a by (fastforce simp: filter_empty_conv)
  then show ?thesis by (simp add: race_results_of_def)
qed

lemma standing_of_earlier:
  assumes "\<forall>a\<in>set earlier. \<forall>b\<in>set later. result_record.date a < result_record.date b"
    and "race \<in> set (races_of earlier)"
    and "fst item \<in> result_record.driver_number ` set earlier"
  shows "standing_of (earlier @ later) race item = standing_of earlier race item"
proof -
  from assms(2) obtain a where a: "a \<in> set earlier" "fst race = result_record.date a"
    unfolding set_races_of by auto
  have none: "filter (\<lambda>r. result_record.driver_number r = fst item
                       \<and> result_record.date r \<le> fst race) later = []"
    using assms(1) a by (fastforce simp: filter_empty_conv)
  have "filter (\<lambda>r. result_record.driver_number r = fst item) earlier \<noteq> []"
    using assms(3) by (auto simp: filter_empty_conv)
  then have "hd (filter (\<lambda>r. result_record.driver_number r = fst item) (earlier @ later))
           = hd (filter (\<lambda>r. result_record.driver_number r = fst item) earlier)"
    by simp
  then show ?thesis using none by (simp add: standing_of_def)
qed

lemma results_upto_earlier:
  assumes "\<forall>a\<in>set earlier. \<forall>b\<in>set later. result_record.date a < result_record.date b"
    and "R \<le> length (races_of earlier)"
  shows "results_upto (earlier @ later) R = results_upto earlier R"
proof -
  have "take R (races_of (earlier @ later)) = take R (races_of earlier)"
    using assms by (simp add: races_of_append)
  moreover have "map (race_results_of (earlier @ later)) (take R (races_of earlier))
       = map (race_results_of earlier) (take R (races_of earlier))"
    using assms(1) by (intro map_cong refl race_results_of_earlier) (auto dest: in_set_takeD)
  ultimately show ?thesis unfolding results_upto_def by (simp only:)
qed

lemma set_results_upto: "set (results_upto results R) \<subseteq> set results"
  using set_race_results_of by (fastforce simp: results_upto_def dest: in_set_takeD)

lemma races_of_set:
  "set results' = set results \<Longrightarrow> races_of results' = races_of results"
proof (rule sorted_distinct_set_unique)
  assume "set results' = set results"
  then show "set (races_of results') = set (races_of results)"
    by (simp add: set_races_of)
qed (simp_all add: races_of_def)

lemma calculate_points_nonneg: "0 \<le> calculate_points pos b"
proof -
  have "\<And>p v. points_system p = Some v \<Longrightarrow> 0 \<le> v"
    by (auto simp: points_system_def split: if_splits)
  then show ?thesis
    by (auto simp: calculate_points_def Let_def split: option.splits)
qed

lemma calculate_points_unclassified:
  "\<not> le_null pos 10 \<Longrightarrow> calculate_points pos b = 0"
  by (auto simp: calculate_points_def le_null_def points_system_def split: option.splits)

lemma build_result_record_fields:
  assumes "build_result_record now yr sess drivers grid fl pen result = Some r"
  shows "result_record.points r =
           calculate_points (final_position r)
             (fastest_lap r \<noteq> None \<and> le_null (final_position r) 10)"
    and "total_time_penalty r =
           sum_list (map penalty_row.penalty_seconds
             (filter (\<lambda>p. penalty_row.driver_number p = result_record.driver_number r) pen))"
proof -
  let ?dn = "session_result.driver_number result"
  obtain d ds where d: "filter (\<lambda>d. driver_row.driver_number d = ?dn) drivers = d # ds"
    using assms
    by (cases "filter (\<lambda>d. driver_row.driver_number d = ?dn) drivers")
       (simp_all add: build_result_record_def Let_def)
  let ?dp = "filter (\<lambda>p. penalty_row.driver_number p = ?dn) pen"
  have "(if ?dp \<noteq> [] then sum_list (map penalty_row.penalty_seconds ?dp) else 0)
        = sum_list (map penalty_row.penalty_seconds ?dp)"
    by (cases ?dp) simp_all
  then have pen: "total_time_penalty r = sum_list (map penalty_row.penalty_seconds ?dp)"
    and dn: "result_record.driver_number r = ?dn"
    using assms d by (auto simp add: build_result_record_def Let_def)
  show "total_time_penalty r =
           sum_list (map penalty_row.penalty_seconds
             (filter (\<lambda>p. penalty_row.driver_number p = result_record.driver_number r) pen))"
    using pen dn by simp
  show "result_record.points r =
           calculate_points (final_position r)
             (fastest_lap r \<noteq> None \<and> le_null (final_position r) 10)"
    using assms d by (auto simp add: build_result_record_def Let_def)
qed

lemma results_loop_built:
  "results_loop clock yr sess drivers grid fl pen nin rs n0 = Inr built \<Longrightarrow> r \<in> set built \<Longrightarrow>
   \<exists>now. \<exists>result\<in>set rs. build_result_record now yr sess drivers grid fl pen result = Some r"
proof (induction rs arbitrary: n0 built)
  case Nil
  then show ?case by simp
next
  case (Cons a rs)
  show ?case
  proof (cases "build_result_record (clock n0) yr sess drivers grid fl pen a")
    case None
    then have "results_loop clock yr sess drivers grid fl pen nin rs n0 = Inr built"
      using Cons.prems(1) by (simp split: if_splits)
    from Cons.IH [OF this Cons.prems(2)] show ?thesis by auto
  next
    case (Some x)
    then obtain others where others:
      "results_loop clock yr sess drivers grid fl pen nin rs (Suc n0) = Inr others"
      "built = x # others"
      using Cons.prems(1) by (auto split: if_splits sum.splits)
    show ?thesis
    proof (cases "r = x")
      case True
      then show ?thesis using Some by auto
    next
      case False
      then have "r \<in> set others" using Cons.prems(2) others(2) by simp
      from Cons.IH [OF others(1) this] show ?thesis by auto
    qed
  qed
qed

lemma sessions_loop_built:
  "sessions_loop clock yr db ss results = Inr out \<Longrightarrow> r \<in> set out \<Longrightarrow>
   r \<in> set results \<or>
   (\<exists>now. \<exists>sess\<in>set ss. \<exists>result\<in>set (fetch_session_results db (session.session_key sess)).
      build_result_record now yr sess (fetch_session_drivers db (session.session_key sess))
        (fetch_starting_grid db (session.session_key sess))
        (get_fastest_laps db (session.session_key sess)) [] result = Some r)"
proof (induction ss arbitrary: results)
  case Nil
  then show ?case by simp
next
  case (Cons s ss)
  let ?k = "session.session_key s"
  show ?case
  proof (cases "fetch_session_results db ?k = [] \<or> fetch_session_drivers db ?k = []")
    case True
    then have "sessions_loop clock yr db ss results = Inr out"
      using Cons.prems(1) by (auto simp: Let_def split: if_splits)
    from Cons.IH [OF this Cons.prems(2)] show ?thesis by auto
  next
    case False
    then obtain built where built:
      "results_loop clock yr s (fetch_session_drivers db ?k) (fetch_starting_grid db ?k)
         (get_fastest_laps db ?k) [] (position_is_none (fetch_session_results db ?k))
         (fetch_session_results db ?k) (length results) = Inr built"
      "sessions_loop clock yr db ss (results @ built) = Inr out"
      using Cons.prems(1) by (auto simp: Let_def get_penalties_def split: sum.splits)
    from Cons.IH [OF built(2) Cons.prems(2)]
    consider "r \<in> set results" | "r \<in> set built"
      | "\<exists>now. \<exists>sess\<in>set ss. \<exists>result\<in>set (fetch_session_results db (session.session_key sess)).
      build_result_record now yr sess (fetch_session_drivers db (session.session_key sess))
        (fetch_starting_grid db (session.session_key sess))
        (get_fastest_laps db (session.session_key sess)) [] result = Some r"
      by auto
    then show ?thesis
    proof cases
      case 1
      then show ?thesis by simp
    next
      case 2
      from results_loop_built [OF built(1) this] show ?thesis by auto
    next
      case 3
      then show ?thesis by auto
    qed
  qed
qed

lemma records_provenance:
  assumes "r \<in> set (grand_prix_result_records clock yr (Inr db))"
  shows "\<exists>now. \<exists>sess\<in>set (fetch_race_sessions db yr).
           \<exists>result\<in>set (fetch_session_results db (session.session_key sess)).
      build_result_record now yr sess (fetch_session_drivers db (session.session_key sess))
        (fetch_starting_grid db (session.session_key sess))
        (get_fastest_laps db (session.session_key sess)) [] result = Some r"
proof -
  from assms obtain out where
    "sessions_loop clock yr db (fetch_race_sessions db yr) [] = Inr out" "r \<in> set out"
    by (cases "sessions_loop clock yr db (fetch_race_sessions db yr) []")
       (auto simp: grand_prix_result_records_def)
  from sessions_loop_built [OF this] show ?thesis by simp
qed

lemma records_built:
  assumes "r \<in> set (grand_prix_result_records clock yr fetched)"
  shows "\<exists>now sess drivers grid fl result.
      build_result_record now yr sess drivers grid fl [] result = Some r"
proof (cases fetched)
  case (Inl e)
  then show ?thesis using assms by (simp add: grand_prix_result_records_def)
next
  case (Inr db)
  then show ?thesis
    using assms records_provenance [of r clock yr db] by blast
qed

lemma truncate_extend [simp]:
  "result_record.truncate (result_record.extend r m) = r"
  by (simp add: result_record.truncate_def result_record.extend_def)

lemma truncate_cumsum_points: "map result_record.truncate (cumsum_points acc rs) = rs"
  by (induction rs arbitrary: acc) (simp_all add: Let_def)

lemma transform_rows:
  assumes "g \<in> set (transform_grand_prix_results clock yr fetched)"
  shows "result_record.truncate g \<in> set (grand_prix_result_records clock yr fetched)"
proof -
  have "result_record.truncate g \<in> set (map result_record.truncate
           (transform_grand_prix_results clock yr fetched))"
    using assms by simp
  then show ?thesis
    by (simp only: transform_grand_prix_results_def add_championship_context_def
          truncate_cumsum_points set_sort)
qed

lemma truncate_selectors [simp]:
  "result_record.points (result_record.truncate g) = result_record.points g"
  "final_position (result_record.truncate g) = final_position g"
  "fastest_lap (result_record.truncate g) = fastest_lap g"
  "total_time_penalty (result_record.truncate g) = total_time_penalty g"
  "result_record.driver_number (result_record.truncate g) = result_record.driver_number g"
  by (simp_all add: result_record.truncate_def)

lemma build_result_record_points:
  assumes "build_result_record now yr sess drivers grid fl pen result = Some r"
  shows "map_option result_record.points
           (build_result_record now yr sess drivers grid fl pen' result)
         = Some (result_record.points r)"
proof -
  let ?dn = "session_result.driver_number result"
  obtain d ds where d: "filter (\<lambda>d. driver_row.driver_number d = ?dn) drivers = d # ds"
    using assms
    by (cases "filter (\<lambda>d. driver_row.driver_number d = ?dn) drivers")
       (simp_all add: build_result_record_def Let_def)
  show ?thesis
    using assms d by (auto simp add: build_result_record_def Let_def)
qed

text \<open>
  The rows that \<^verbatim>\<open>transform_grand_prix_results\<close> builds have no negative points, and their
  \<open>total_season_points\<close> is the running sum of the driver's points in the order of the
  output (by driver, then date).
\<close>

lemma built_points_nonneg:
  assumes "g \<in> set (transform_grand_prix_results clock yr fetched)"
  shows "0 \<le> result_record.points g"
proof -
  from records_built [OF transform_rows [OF assms]]
  obtain now sess drivers grid fl result where
    "build_result_record now yr sess drivers grid fl [] result = Some (result_record.truncate g)"
    by blast
  from build_result_record_fields(1) [OF this]
  show ?thesis by (simp add: calculate_points_nonneg)
qed

lemma total_season_points_cumsum:
  "i < length rs \<Longrightarrow>
   total_season_points (cumsum_points acc rs ! i) =
   acc (result_record.driver_number (rs ! i))
   + driver_points (take (Suc i) rs) (result_record.driver_number (rs ! i))"
proof (induction rs arbitrary: acc i)
  case Nil
  then show ?case by simp
next
  case (Cons r rs)
  show ?case
  proof (cases i)
    case 0
    then show ?thesis
      by (simp add: Let_def driver_points_def result_record.extend_def)
  next
    case (Suc j)
    then have j: "j < length rs" using Cons.prems by simp
    show ?thesis
      using Cons.IH [OF j] Suc by (simp add: Let_def driver_points_def)
  qed
qed

lemma total_season_points_running_sum:
  assumes "out = transform_grand_prix_results clock yr fetched" and "i < length out"
  shows "total_season_points (out ! i) =
         driver_points (take (Suc i) out) (result_record.driver_number (out ! i))"
proof -
  let ?rs = "sort_key (\<lambda>r. (result_record.driver_number r, result_record.date r))
               (grand_prix_result_records clock yr fetched)"
  have out: "out = cumsum_points (\<lambda>dn. 0) ?rs"
    using assms(1) by (simp add: transform_grand_prix_results_def add_championship_context_def)
  have tr: "map result_record.truncate out = ?rs"
    unfolding out by (rule truncate_cumsum_points)
  then have len: "length out = length ?rs" by (metis length_map)
  have i: "i < length ?rs" using assms(2) len by simp
  have nth: "?rs ! i = result_record.truncate (out ! i)"
    using tr assms(2) by (metis nth_map)
  have "take (Suc i) ?rs = map result_record.truncate (take (Suc i) out)"
    using tr by (metis take_map)
  then have dp: "driver_points (take (Suc i) ?rs) d = driver_points (take (Suc i) out) d" for d
    by (simp add: driver_points_def filter_map comp_def)
  show ?thesis
    using total_season_points_cumsum [OF i, of "\<lambda>dn. 0"] dp
    unfolding out [symmetric] nth by simp
qed

lemma calculate_points_table:
  assumes "1 \<le> p" "p \<le> 10"
  shows "calculate_points (Some p) b = [25, 18, 15, 12, 10, 8, 6, 4, 2, 1] ! nat (p - 1)
       \<or> calculate_points (Some p) b = [25, 18, 15, 12, 10, 8, 6, 4, 2, 1] ! nat (p - 1) + 1"
proof -
  from assms have "p = 1 \<or> p = 2 \<or> p = 3 \<or> p = 4 \<or> p = 5 \<or> p = 6 \<or> p = 7 \<or> p = 8 \<or> p = 9 \<or> p = 10"
    by arith
  then show ?thesis
    by (elim disjE) (simp_all add: calculate_points_def points_system_def le_null_def)
qed

lemma build_result_record_copies:
  assumes "build_result_record now yr sess drivers grid fl pen result = Some r"
  shows "result_record.driver_number r = session_result.driver_number result"
    and "final_position r = session_result.position result"
    and "result_record.dsq r = get_default (session_result.dsq result)"
proof -
  let ?dn = "session_result.driver_number result"
  obtain d ds where d: "filter (\<lambda>d. driver_row.driver_number d = ?dn) drivers = d # ds"
    using assms
    by (cases "filter (\<lambda>d. driver_row.driver_number d = ?dn) drivers")
       (simp_all add: build_result_record_def Let_def)
  show "result_record.driver_number r = session_result.driver_number result"
    and "final_position r = session_result.position result"
    and "result_record.dsq r = get_default (session_result.dsq result)"
    using assms d by (auto simp add: build_result_record_def Let_def)
qed

lemma build_result_record_dsq:
  "map_option without_dsq
     (build_result_record now yr sess drivers grid fl pen (result \<lparr> session_result.dsq := v \<rparr>))
   = map_option without_dsq (build_result_record now yr sess drivers grid fl pen result)"
  by (cases "filter (\<lambda>d. driver_row.driver_number d = session_result.driver_number result) drivers")
     (simp_all add: build_result_record_def Let_def without_dsq_def)

lemma raises_type_error_dsq [simp]:
  "raises_type_error drivers fl nin (result \<lparr> session_result.dsq := v \<rparr>)
   = raises_type_error drivers fl nin result"
  by (simp add: raises_type_error_def)

lemma position_is_none_dsq [simp]:
  "position_is_none (map (\<lambda>r. r \<lparr> session_result.dsq := f r \<rparr>) rs) = position_is_none rs"
  by (simp add: position_is_none_def list_all_iff)

lemma results_loop_dsq:
  "map_sum id (map without_dsq)
     (results_loop clock yr sess drivers grid fl pen nin
        (map (\<lambda>r. r \<lparr> session_result.dsq := f r \<rparr>) rs) n0)
   = map_sum id (map without_dsq)
     (results_loop clock yr sess drivers grid fl pen nin rs n0)"
proof (induction rs arbitrary: n0)
  case Nil
  then show ?case by simp
next
  case (Cons a rs)
  let ?a' = "a \<lparr> session_result.dsq := f a \<rparr>"
  have b: "map_option without_dsq (build_result_record (clock n0) yr sess drivers grid fl pen ?a')
         = map_option without_dsq (build_result_record (clock n0) yr sess drivers grid fl pen a)"
    by (rule build_result_record_dsq)
  show ?case
  proof (cases "raises_type_error drivers fl nin a")
    case True
    then show ?thesis by simp
  next
    case False
    show ?thesis
    proof (cases "build_result_record (clock n0) yr sess drivers grid fl pen a")
      case None
      then have "build_result_record (clock n0) yr sess drivers grid fl pen ?a' = None"
        using b by simp
      then show ?thesis using None False Cons.IH [of n0] by simp
    next
      case (Some x)
      then obtain x' where x': "build_result_record (clock n0) yr sess drivers grid fl pen ?a' = Some x'"
        "without_dsq x' = without_dsq x"
        using b by (cases "build_result_record (clock n0) yr sess drivers grid fl pen ?a'") auto
      show ?thesis
        using Some x' False Cons.IH [of "Suc n0"]
        by (auto split: sum.splits)
    qed
  qed
qed

lemma get_fastest_laps_with_dsq [simp]:
  "get_fastest_laps (with_dsq db f) k = get_fastest_laps db k"
  by (simp add: get_fastest_laps_def with_dsq_def)

lemma sessions_loop_dsq:
  "map without_dsq res1 = map without_dsq res2 \<Longrightarrow>
   map_sum id (map without_dsq) (sessions_loop clock yr (with_dsq db f) ss res1)
   = map_sum id (map without_dsq) (sessions_loop clock yr db ss res2)"
proof (induction ss arbitrary: res1 res2)
  case Nil
  then show ?case by simp
next
  case (Cons s ss)
  let ?k = "session.session_key s"
  let ?u = "\<lambda>r. r \<lparr> session_result.dsq := f r \<rparr>"
  have len: "length res1 = length res2" using Cons.prems by (metis length_map)
  have rows: "fetch_session_results (with_dsq db f) ?k = map ?u (fetch_session_results db ?k)"
    and drv: "fetch_session_drivers (with_dsq db f) ?k = fetch_session_drivers db ?k"
    and grid: "fetch_starting_grid (with_dsq db f) ?k = fetch_starting_grid db ?k"
    by (simp_all add: with_dsq_def)
  let ?loop1 = "results_loop clock yr s (fetch_session_drivers db ?k) (fetch_starting_grid db ?k)
         (get_fastest_laps db ?k) [] (position_is_none (fetch_session_results db ?k))
         (map ?u (fetch_session_results db ?k)) (length res2)"
  let ?loop2 = "results_loop clock yr s (fetch_session_drivers db ?k) (fetch_starting_grid db ?k)
         (get_fastest_laps db ?k) [] (position_is_none (fetch_session_results db ?k))
         (fetch_session_results db ?k) (length res2)"
  have loops: "map_sum id (map without_dsq) ?loop1 = map_sum id (map without_dsq) ?loop2"
    by (rule results_loop_dsq)
  show ?case
  proof (cases "fetch_session_results db ?k = [] \<or> fetch_session_drivers db ?k = []")
    case True
    then show ?thesis
      using Cons.IH [OF Cons.prems] by (auto simp: Let_def rows drv)
  next
    case False
    show ?thesis
    proof (cases ?loop2)
      case (Inl e)
      then have "?loop1 = Inl e" using loops by (cases ?loop1) auto
      then show ?thesis
        using Inl False by (simp add: Let_def rows drv grid len get_penalties_def)
    next
      case (Inr b2)
      then obtain b1 where b1: "?loop1 = Inr b1" "map without_dsq b1 = map without_dsq b2"
        using loops by (cases ?loop1) auto
      have "map without_dsq (res1 @ b1) = map without_dsq (res2 @ b2)"
        using Cons.prems b1(2) by simp
      from Cons.IH [OF this] show ?thesis
        using Inr b1(1) False by (simp add: Let_def rows drv grid len get_penalties_def)
    qed
  qed
qed

lemma records_with_dsq:
  "map without_dsq (grand_prix_result_records clock yr (Inr (with_dsq db f)))
   = map without_dsq (grand_prix_result_records clock yr (Inr db))"
proof -
  have s: "fetch_race_sessions (with_dsq db f) yr = fetch_race_sessions db yr"
    by (simp add: with_dsq_def)
  have "map_sum id (map without_dsq) (sessions_loop clock yr (with_dsq db f) (fetch_race_sessions db yr) [])
      = map_sum id (map without_dsq) (sessions_loop clock yr db (fetch_race_sessions db yr) [])"
    by (rule sessions_loop_dsq) simp
  then show ?thesis
    by (cases "sessions_loop clock yr (with_dsq db f) (fetch_race_sessions db yr) []";
        cases "sessions_loop clock yr db (fetch_race_sessions db yr) []")
       (auto simp: grand_prix_result_records_def s)
qed


lemma sorted_take_le:
  assumes "sorted xs" "distinct xs" "j < length xs"
  shows "{k \<in> set xs. k \<le> xs ! j} = set (take (Suc j) xs)"
proof (intro set_eqI iffI)
  fix k assume "k \<in> {k \<in> set xs. k \<le> xs ! j}"
  then obtain i where i: "i < length xs" "k = xs ! i" "xs ! i \<le> xs ! j"
    by (auto simp: in_set_conv_nth)
  have "i \<le> j"
  proof (rule ccontr)
    assume "\<not> i \<le> j"
    then have "j < i" by simp
    then have "xs ! j \<le> xs ! i" using assms(1) i(1) by (simp add: sorted_nth_mono)
    then have "xs ! i = xs ! j" using i(3) by simp
    then have "i = j" using assms(2,3) i(1) by (simp add: nth_eq_iff_index_eq)
    then show False using \<open>j < i\<close> by simp
  qed
  then show "k \<in> set (take (Suc j) xs)"
    using i(1,2) by (auto simp: in_set_conv_nth intro!: exI [of _ i])
next
  fix k assume "k \<in> set (take (Suc j) xs)"
  then obtain i where i: "i < Suc j" "i < length xs" "k = xs ! i"
    by (auto simp: in_set_conv_nth)
  then have "xs ! i \<le> xs ! j" using assms(1,3) by (simp add: sorted_nth_mono)
  then show "k \<in> {k \<in> set xs. k \<le> xs ! j}" using i by auto
qed

lemma nth_in_take:
  assumes "distinct xs" "i < length xs"
  shows "(xs ! i \<in> set (take R xs)) = (i < R)"
proof
  assume "xs ! i \<in> set (take R xs)"
  then obtain i' where i': "i' < R" "i' < length xs" "xs ! i = xs ! i'"
    by (auto simp: in_set_conv_nth)
  then have "i = i'" using assms by (simp add: nth_eq_iff_index_eq)
  then show "i < R" using i' by simp
next
  assume "i < R"
  then show "xs ! i \<in> set (take R xs)"
    using assms(2) by (auto simp: in_set_conv_nth intro!: exI [of _ i])
qed

lemma races_of_props:
  "sorted (races_of results)" "distinct (races_of results)"
  "set (races_of results) = race_key ` set results"
  by (auto simp: races_of_def race_key_def)

lemma round_number_index:
  assumes "i < length (races_of results)" "race_key r = races_of results ! i"
  shows "round_number results r = Suc i"
proof -
  let ?races = "races_of results"
  have "round_number results r = card ({k. k \<le> race_key r} \<inter> set (remdups (map race_key results)))"
    unfolding round_number_def by (rule distinct_length_filter) simp
  also have "{k. k \<le> race_key r} \<inter> set (remdups (map race_key results))
           = {k \<in> set ?races. k \<le> ?races ! i}"
    using assms(2) races_of_props(3) [of results] by auto
  also have "\<dots> = set (take (Suc i) ?races)"
    using races_of_props(1,2) assms(1) by (rule sorted_take_le)
  also have "card \<dots> = length (take (Suc i) ?races)"
    using races_of_props(2) [of results] by (intro distinct_card) simp
  finally show ?thesis using assms(1) by simp
qed

lemma round_number_take:
  assumes "r \<in> set results"
  shows "(round_number results r \<le> R) = (race_key r \<in> set (take R (races_of results)))"
proof -
  have "race_key r \<in> set (races_of results)"
    using assms races_of_props(3) [of results] by auto
  then obtain i where i: "i < length (races_of results)" "race_key r = races_of results ! i"
    by (auto simp: in_set_conv_nth)
  have "(round_number results r \<le> R) = (i < R)"
    using round_number_index [OF i] by auto
  also have "\<dots> = (races_of results ! i \<in> set (take R (races_of results)))"
    using nth_in_take [OF races_of_props(2) i(1), of R] by simp
  finally show ?thesis using i(2) by simp
qed

lemma sum_list_filter_disjoint:
  "(\<And>x. \<not> (P x \<and> Q x)) \<Longrightarrow>
   sum_list (map f (filter (\<lambda>x. P x \<or> Q x) xs)) =
   sum_list (map f (filter P xs)) + (sum_list (map f (filter Q xs)) :: int)"
  by (induction xs) auto

lemma driver_points_races:
  "distinct rs \<Longrightarrow>
   driver_points (concat (map (race_results_of results) rs)) d =
   sum_list (map result_record.points
     (filter (\<lambda>r. result_record.driver_number r = d \<and> race_key r \<in> set rs) results))"
proof (induction rs)
  case Nil
  then show ?case by (simp add: driver_points_def)
next
  case (Cons a rs)
  let ?P = "\<lambda>r. result_record.driver_number r = d \<and> race_key r = a"
  let ?Q = "\<lambda>r. result_record.driver_number r = d \<and> race_key r \<in> set rs"
  have a: "driver_points (race_results_of results a) d
           = sum_list (map result_record.points (filter ?P results))"
    unfolding driver_points_def race_results_of_def race_key_def filter_filter
    by (intro arg_cong [where f = sum_list] arg_cong [where f = "map result_record.points"]
              filter_cong) auto
  have split: "filter (\<lambda>r. result_record.driver_number r = d \<and> race_key r \<in> set (a # rs)) results
        = filter (\<lambda>r. ?P r \<or> ?Q r) results"
    by (intro filter_cong refl) auto
  have disj: "sum_list (map result_record.points (filter (\<lambda>r. ?P r \<or> ?Q r) results))
        = sum_list (map result_record.points (filter ?P results))
        + sum_list (map result_record.points (filter ?Q results))"
    using Cons.prems by (intro sum_list_filter_disjoint) auto
  have "driver_points (concat (map (race_results_of results) (a # rs))) d
        = driver_points (race_results_of results a) d
        + driver_points (concat (map (race_results_of results) rs)) d"
    by (simp add: driver_points_append)
  also have "\<dots> = sum_list (map result_record.points (filter ?P results))
        + sum_list (map result_record.points (filter ?Q results))"
    using a Cons by simp
  also have "\<dots> = sum_list (map result_record.points (filter (\<lambda>r. ?P r \<or> ?Q r) results))"
    by (simp only: disj)
  also have "\<dots> = sum_list (map result_record.points
     (filter (\<lambda>r. result_record.driver_number r = d \<and> race_key r \<in> set (a # rs)) results))"
    by (simp only: split)
  finally show ?case .
qed

lemma driver_points_round_number:
  "driver_points (results_upto results R) d =
   sum_list (map result_record.points
     (filter (\<lambda>r. result_record.driver_number r = d \<and> round_number results r \<le> R) results))"
proof -
  have "driver_points (results_upto results R) d =
     sum_list (map result_record.points
       (filter (\<lambda>r. result_record.driver_number r = d
                   \<and> race_key r \<in> set (take R (races_of results))) results))"
    unfolding results_upto_def
    using races_of_props(2) [of results] by (intro driver_points_races) simp
  also have "filter (\<lambda>r. result_record.driver_number r = d
                   \<and> race_key r \<in> set (take R (races_of results))) results
           = filter (\<lambda>r. result_record.driver_number r = d \<and> round_number results r \<le> R) results"
    by (intro filter_cong refl) (simp add: round_number_take)
  finally show ?thesis .
qed

lemma after_race_standing_records:
  "s \<in> set (standing_records clock yr i race xs m) \<Longrightarrow> after_race s = snd race"
  by (auto simp: standing_records_def Let_def)

lemma after_race_snapshot:
  fixes results :: "'a result_record_scheme list"
  assumes "s \<in> set (snapshot_after (transform_championship_standings clock yr (Inr results)) R)"
  shows "\<exists>r\<in>set results. round_number results r = R \<and> after_race s = result_record.grand_prix r"
proof -
  from snapshot_entry [OF assms] have R: "1 \<le> R" "R \<le> length (races_of results)" by simp_all
  from snapshot_in_range [OF R, of clock yr] assms
  have a: "after_race s = snd (races_of results ! (R - 1))"
    by (auto dest: after_race_standing_records)
  have lt: "R - 1 < length (races_of results)" using R by simp
  then have "races_of results ! (R - 1) \<in> race_key ` set results"
    using races_of_props(3) [of results] nth_mem by blast
  then obtain r where r: "r \<in> set results" "race_key r = races_of results ! (R - 1)" by auto
  have "round_number results r = R"
    using round_number_index [OF lt r(2)] R by simp
  moreover have "after_race s = result_record.grand_prix r"
    using a r(2) by (metis race_key_def snd_conv)
  ultimately show ?thesis using r(1) by blast
qed



lemma races_of_keys:
  "race_key ` set a = race_key ` set b \<Longrightarrow> races_of a = races_of b"
proof (rule sorted_distinct_set_unique)
  assume "race_key ` set a = race_key ` set b"
  then show "set (races_of a) = set (races_of b)" by (simp add: races_of_props(3))
qed (simp_all add: races_of_props)

lemma round_number_keys:
  assumes "race_key ` set a = race_key ` set b" and that: "race_key r = race_key r'"
  shows "round_number a r = round_number b r'"
proof -
  have "round_number a r = card ({k. k \<le> race_key r} \<inter> set (remdups (map race_key a)))"
    unfolding round_number_def by (rule distinct_length_filter) simp
  moreover have "round_number b r' = card ({k. k \<le> race_key r'} \<inter> set (remdups (map race_key b)))"
    unfolding round_number_def by (rule distinct_length_filter) simp
  ultimately show ?thesis using assms that by simp
qed

lemma snapshot_nonempty:
  fixes results :: "'a result_record_scheme list"
  assumes "j < length (races_of results)"
  shows "snapshot_after (transform_championship_standings clock yr (Inr results)) (Suc j) \<noteq> []"
proof -
  have R: "1 \<le> Suc j" "Suc j \<le> length (races_of results)" using assms by simp_all
  have "races_of results ! j \<in> race_key ` set results"
    using assms races_of_props(3) [of results] nth_mem by blast
  then obtain r where "r \<in> set results" "race_key r = races_of results ! j" by auto
  then have "r \<in> set (race_results_of results (races_of results ! j))"
    by (auto simp: race_results_of_def race_key_def dest: arg_cong [where f = fst]
             arg_cong [where f = snd])
  then have "results_upto results (Suc j) \<noteq> []"
    using results_upto_Suc [OF assms] by auto
  moreover have "set (map driver_number (snapshot_after
             (transform_championship_standings clock yr (Inr results)) (Suc j)))
          = result_record.driver_number ` set (results_upto results (Suc j))"
    using drivers_of_snapshot(2) [OF R refl] .
  ultimately show ?thesis by auto
qed

lemma after_race_round:
  fixes results :: "'a result_record_scheme list"
  assumes "s \<in> set (snapshot_after (transform_championship_standings clock yr (Inr results)) R)"
  shows "1 \<le> R" "R \<le> length (races_of results)"
    "round_label s = (R, snd (races_of results ! (R - 1)))"
proof -
  from snapshot_entry [OF assms] show R: "1 \<le> R" "R \<le> length (races_of results)" by simp_all
  from snapshot_in_range [OF R, of clock yr] assms
  have "after_race s = snd (races_of results ! (R - 1))"
    by (auto dest: after_race_standing_records)
  moreover have "race_round s = R" using assms by (simp add: snapshot_after_def)
  ultimately show "round_label s = (R, snd (races_of results ! (R - 1)))"
    by (simp add: round_label_def)
qed

lemma round_labels_emitted:
  fixes results :: "'a result_record_scheme list"
  shows "set (map round_label (transform_championship_standings clock yr (Inr results)))
       = (\<lambda>j. (Suc j, snd (races_of results ! j))) ` {..<length (races_of results)}"
proof (intro set_eqI iffI)
  fix x assume "x \<in> set (map round_label (transform_championship_standings clock yr (Inr results)))"
  then obtain s where s: "s \<in> set (transform_championship_standings clock yr (Inr results))"
      "x = round_label s" by auto
  then have "s \<in> set (snapshot_after (transform_championship_standings clock yr (Inr results))
                        (race_round s))"
    by (simp add: snapshot_after_def)
  from after_race_round [OF this] s(2)
  show "x \<in> (\<lambda>j. (Suc j, snd (races_of results ! j))) ` {..<length (races_of results)}"
    by (auto simp: image_iff intro!: bexI [of _ "race_round s - 1"])
next
  fix x assume "x \<in> (\<lambda>j. (Suc j, snd (races_of results ! j))) ` {..<length (races_of results)}"
  then obtain j where j: "j < length (races_of results)" "x = (Suc j, snd (races_of results ! j))"
    by auto
  from snapshot_nonempty [OF j(1), of clock yr]
  obtain s where s: "s \<in> set (snapshot_after
       (transform_championship_standings clock yr (Inr results)) (Suc j))"
    by (meson last_in_set)
  from after_race_round(3) [OF s] have "round_label s = x" using j(2) by simp
  moreover have "s \<in> set (transform_championship_standings clock yr (Inr results))"
    using s by (simp add: snapshot_after_def)
  ultimately show "x \<in> set (map round_label (transform_championship_standings clock yr (Inr results)))"
    by force
qed

lemma sum_list_filter_split:
  "sum_list (map f (filter P xs)) =
   sum_list (map f (filter (\<lambda>x. P x \<and> Q x) xs))
   + (sum_list (map f (filter (\<lambda>x. P x \<and> \<not> Q x) xs)) :: int)"
  by (induction xs) auto

lemma refed_points:
  fixes results :: "'a result_record_scheme list"
  assumes cover: "\<forall>r\<in>set results. refed r \<longrightarrow>
              (\<exists>r0\<in>set results. \<not> refed r0 \<and> race_key r0 = race_key r)"
    and s: "s \<in> set (snapshot_after (transform_championship_standings clock yr (Inr results)) R)"
    and s': "s' \<in> set (snapshot_after (transform_championship_standings clock yr
                  (Inr (filter (\<lambda>r. \<not> refed r) results))) R)"
    and same: "driver_number s = driver_number s'"
  shows "after_race s = after_race s'"
    and "points s = points s'
       + sum_list (map result_record.points
           (filter (\<lambda>r. refed r \<and> result_record.driver_number r = driver_number s
                        \<and> round_number results r \<le> R) results))"
proof -
  let ?base = "filter (\<lambda>r. \<not> refed r) results"
  let ?d = "driver_number s"
  have keys: "race_key ` set ?base = race_key ` set results"
    using cover by (auto simp: image_iff) metis
  have races: "races_of ?base = races_of results" using keys by (rule races_of_keys)
  have rn: "round_number ?base r = round_number results r" for r
    using round_number_keys [OF keys refl] .
  from after_race_round(3) [OF s] after_race_round(3) [OF s'] races
  show "after_race s = after_race s'" by (simp add: round_label_def)
  let ?P = "\<lambda>r. result_record.driver_number r = ?d \<and> round_number results r \<le> R"
  have p: "points s = sum_list (map result_record.points (filter ?P results))"
    using points_snapshot [OF s] by (simp only: driver_points_round_number)
  have "points s' = sum_list (map result_record.points
          (filter (\<lambda>r. result_record.driver_number r = ?d \<and> round_number ?base r \<le> R) ?base))"
    using points_snapshot [OF s'] same by (simp only: driver_points_round_number)
  also have "filter (\<lambda>r. result_record.driver_number r = ?d \<and> round_number ?base r \<le> R) ?base
           = filter (\<lambda>r. ?P r \<and> \<not> refed r) results"
    unfolding filter_filter by (intro filter_cong refl) (auto simp: rn)
  finally have p': "points s' = sum_list (map result_record.points
          (filter (\<lambda>r. ?P r \<and> \<not> refed r) results))" .
  have "filter (\<lambda>r. refed r \<and> result_record.driver_number r = ?d
                        \<and> round_number results r \<le> R) results
        = filter (\<lambda>r. ?P r \<and> refed r) results"
    by (intro filter_cong refl) auto
  then show "points s = points s'
       + sum_list (map result_record.points
           (filter (\<lambda>r. refed r \<and> result_record.driver_number r = driver_number s
                        \<and> round_number results r \<le> R) results))"
    using p p' sum_list_filter_split [of result_record.points ?P results refed]
    by simp
qed

section \<open>Gaps to the leader and to the next driver\<close>

text \<open>
  C7. In the snapshot after any round the entry at index \<open>i\<close> has rank \<open>i + 1\<close>; the
  rank-1 entry has \<open>points_behind_leader = 0\<close>; every entry has
  \<open>points_behind_leader\<close> equal to the leader's points minus its own, which is not
  negative and does not decrease as the rank increases; and \<open>points_ahead_next\<close> is the
  entry's points minus those of the next lower rank, or 0 for the last entry.
\<close>

theorem leader_gap_and_next_gap:
  fixes results :: "'a result_record_scheme list"
  assumes "snaps = snapshot_after (transform_championship_standings clock yr (Inr results)) R"
    and "i < length snaps"
  shows "position (snaps ! i) = i + 1
       \<and> (position (snaps ! i) = 1 \<longrightarrow> points_behind_leader (snaps ! i) = 0)
       \<and> points_behind_leader (snaps ! i) = points (snaps ! 0) - points (snaps ! i)
       \<and> 0 \<le> points_behind_leader (snaps ! i)
       \<and> (\<forall>j. i \<le> j \<and> j < length snaps \<longrightarrow>
              points_behind_leader (snaps ! i) \<le> points_behind_leader (snaps ! j))
       \<and> points_ahead_next (snaps ! i) =
            (if i + 1 < length snaps then points (snaps ! i) - points (snaps ! (i + 1)) else 0)"
proof -
  from snapshot_transform [of clock yr results R] assms
  obtain j m xs where snaps: "snaps = standing_records clock yr j (races_of results ! j)
        (sort_points_reverse xs) m"
    by fastforce
  let ?ys = "sort_points_reverse xs"
  have len: "length snaps = length xs" by (simp add: snaps)
  have nth: "\<And>k. k < length xs \<Longrightarrow>
      position (snaps ! k) = k + 1 \<and>
      points (snaps ! k) = points (?ys ! k) \<and>
      points_behind_leader (snaps ! k) = points (?ys ! 0) - points (?ys ! k) \<and>
      points_ahead_next (snaps ! k) =
        (if k + 1 < length xs then points (?ys ! k) - points (?ys ! (k + 1)) else 0)"
    unfolding snaps by (simp add: nth_standing_records)
  have i: "i < length xs" using assms(2) len by simp
  have zero: "0 < length xs" using i by (cases xs) auto
  have mono: "\<And>a b. a \<le> b \<Longrightarrow> b < length xs \<Longrightarrow> points (?ys ! b) \<le> points (?ys ! a)"
    by (rule sort_points_reverse_nth_mono)
  have p1: "position (snaps ! i) = i + 1" using nth [OF i] by simp
  have p2: "position (snaps ! i) = 1 \<longrightarrow> points_behind_leader (snaps ! i) = 0"
    using nth [OF i] by auto
  have p3: "points_behind_leader (snaps ! i) = points (snaps ! 0) - points (snaps ! i)"
    using nth [OF i] nth [OF zero] by simp
  have p4: "0 \<le> points_behind_leader (snaps ! i)"
    using nth [OF i] mono [of 0 i] i by simp
  have p5: "\<forall>j. i \<le> j \<and> j < length snaps \<longrightarrow>
              points_behind_leader (snaps ! i) \<le> points_behind_leader (snaps ! j)"
  proof (intro allI impI)
    fix j assume j: "i \<le> j \<and> j < length snaps"
    then have jl: "j < length xs" using len by simp
    show "points_behind_leader (snaps ! i) \<le> points_behind_leader (snaps ! j)"
      using nth [OF i] nth [OF jl] mono [of i j] j jl by simp
  qed
  have p6: "points_ahead_next (snaps ! i) =
            (if i + 1 < length snaps then points (snaps ! i) - points (snaps ! (i + 1)) else 0)"
  proof (cases "i + 1 < length xs")
    case True
    then show ?thesis using nth [OF i] nth [OF True] len by simp
  next
    case False
    then show ?thesis using nth [OF i] len by simp
  qed
  show ?thesis using p1 p2 p3 p4 p5 p6 by blast
qed


theorem leader_gap_and_next_gap_witness:
  "2 < length (snapshot_after
         (transform_championship_standings example_clock 2023 (Inr example_season)) 2)
   \<and> position (snapshot_after
         (transform_championship_standings example_clock 2023 (Inr example_season)) 2 ! 2) = 3
   \<and> points_behind_leader (snapshot_after
         (transform_championship_standings example_clock 2023 (Inr example_season)) 2 ! 2) = 23
   \<and> points_ahead_next (snapshot_after
         (transform_championship_standings example_clock 2023 (Inr example_season)) 2 ! 2) = 0"
proof -
  let ?S = "snapshot_after
         (transform_championship_standings example_clock 2023 (Inr example_season)) 2"
  have len: "length ?S = 3" by code_simp
  have pts: "points (?S ! 0) = 41" "points (?S ! 2) = 18" by code_simp+
  have i: "2 < length ?S" using len by simp
  from leader_gap_and_next_gap [OF refl i] len pts show ?thesis by simp
qed

section \<open>Cumulative points\<close>

text \<open>
  C5. The points of a driver's entry in the snapshot after round \<open>R\<close> are the sum of the
  points of that driver's rows in the races 1..R of the season, the races counted in
  chronological order (\<open>round_number\<close>); the snapshot carries the name of race \<open>R\<close>; and
  when no row has negative points (every row that \<^verbatim>\<open>_calculate_points\<close> scores has none),
  the driver's points in a later snapshot are not smaller.
\<close>

theorem snapshot_points_are_running_sums:
  fixes results :: "'a result_record_scheme list"
  assumes "s \<in> set (snapshot_after (transform_championship_standings clock yr (Inr results)) R)"
  shows "points s =
           sum_list (map result_record.points
             (filter (\<lambda>r. result_record.driver_number r = driver_number s
                         \<and> round_number results r \<le> R) results))
       \<and> (\<exists>r\<in>set results. round_number results r = R
                            \<and> after_race s = result_record.grand_prix r)
       \<and> ((\<forall>r\<in>set results. 0 \<le> result_record.points r) \<longrightarrow>
            (\<forall>R' s'. R \<le> R'
               \<and> s' \<in> set (snapshot_after
                          (transform_championship_standings clock yr (Inr results)) R')
               \<and> driver_number s' = driver_number s
               \<longrightarrow> points s \<le> points s'))"
proof (intro conjI impI allI)
  show "points s =
           sum_list (map result_record.points
             (filter (\<lambda>r. result_record.driver_number r = driver_number s
                         \<and> round_number results r \<le> R) results))"
    using points_snapshot [OF assms] by (simp only: driver_points_round_number)
  show "\<exists>r\<in>set results. round_number results r = R
                            \<and> after_race s = result_record.grand_prix r"
    using assms by (rule after_race_snapshot)
next
  fix R' s'
  assume nonneg: "\<forall>r\<in>set results. 0 \<le> result_record.points r"
    and h: "R \<le> R'
        \<and> s' \<in> set (snapshot_after (transform_championship_standings clock yr (Inr results)) R')
        \<and> driver_number s' = driver_number s"
  from h obtain rest where rest: "results_upto results R' = results_upto results R @ rest"
      "set rest \<subseteq> set results"
    using results_upto_le [of R R' results] by blast
  have "0 \<le> driver_points rest (driver_number s)"
    using nonneg rest(2) by (intro driver_points_nonneg) blast
  moreover have "points s' = driver_points (results_upto results R') (driver_number s)"
    using h points_snapshot [of s' clock yr results R'] by simp
  moreover have "points s = driver_points (results_upto results R) (driver_number s)"
    using assms by (rule points_snapshot)
  ultimately show "points s \<le> points s'"
    by (simp add: rest(1) driver_points_append)
qed

theorem snapshot_points_are_running_sums_witness:
  "snapshot_after (transform_championship_standings example_clock 2023 (Inr example_season)) 1 ! 0
     \<in> set (snapshot_after (transform_championship_standings example_clock 2023 (Inr example_season)) 1)
   \<and> points (snapshot_after
        (transform_championship_standings example_clock 2023 (Inr example_season)) 1 ! 0) = 26
   \<and> points (snapshot_after
        (transform_championship_standings example_clock 2023 (Inr example_season)) 2 ! 0) = 41
   \<and> points (snapshot_after
        (transform_championship_standings example_clock 2023 (Inr example_season)) 1 ! 0)
     \<le> points (snapshot_after
        (transform_championship_standings example_clock 2023 (Inr example_season)) 2 ! 0)"
proof -
  let ?T = "transform_championship_standings example_clock 2023 (Inr example_season)"
  let ?s = "snapshot_after ?T 1 ! 0"
  let ?s' = "snapshot_after ?T 2 ! 0"
  have s: "?s \<in> set (snapshot_after ?T 1)" by code_simp
  have s': "?s' \<in> set (snapshot_after ?T 2)" by code_simp
  have same: "driver_number ?s' = driver_number ?s" by code_simp
  have nonneg: "\<forall>r\<in>set example_season. 0 \<le> result_record.points r" by code_simp
  have sum1: "sum_list (map result_record.points
             (filter (\<lambda>r. result_record.driver_number r = driver_number ?s
                         \<and> round_number example_season r \<le> 1) example_season)) = 26"
    by code_simp
  have sum2: "sum_list (map result_record.points
             (filter (\<lambda>r. result_record.driver_number r = driver_number ?s'
                         \<and> round_number example_season r \<le> 2) example_season)) = 41"
    by code_simp
  have le: "(1::nat) \<le> 2" by simp
  note run1 = snapshot_points_are_running_sums [OF s]
  note run2 = snapshot_points_are_running_sums [OF s']
  have a: "points ?s = 26" using run1 sum1 by (simp only:)
  have a': "points ?s' = 41" using run2 sum2 by (simp only:)
  have b: "points ?s \<le> points ?s'" using run1 nonneg le s' same by blast
  show ?thesis using s a a' b by (intro conjI)
qed

section \<open>Every driver is ranked, once\<close>




section \<open>Driver and team names\<close>

text \<open>
  C10. The \<open>driver_name\<close> and \<open>team_name\<close> of a snapshot entry are those of the first
  row of the driver in \<^verbatim>\<open>results\<close>; when the rows are in date order, as the query
  returns them, no row of the driver has an earlier date. A later change of team does
  not show in any snapshot.
\<close>

theorem names_from_first_row:
  fixes results :: "'a result_record_scheme list"
  assumes "s \<in> set (snapshot_after (transform_championship_standings clock yr (Inr results)) R)"
  shows "\<exists>r rest.
           filter (\<lambda>r. result_record.driver_number r = driver_number s) results = r # rest
         \<and> driver_name s = result_record.driver_name r
         \<and> team_name s = result_record.team_name r
         \<and> (sorted (map result_record.date results) \<longrightarrow>
              (\<forall>r'\<in>set results. result_record.driver_number r' = driver_number s
                                  \<longrightarrow> result_record.date r \<le> result_record.date r'))"
proof -
  from snapshot_entry [OF assms] obtain item where
    item: "item \<in> set (update_cumulative_points [] (results_upto results R))"
    and s: "standing.truncate s = standing_of results (races_of results ! (R - 1)) item"
    by blast
  let ?rows = "filter (\<lambda>r. result_record.driver_number r = driver_number s) results"
  have dn: "driver_number s = fst item"
    using truncate_fields [OF s] by simp
  have "fst item \<in> fst ` set (update_cumulative_points [] (results_upto results R))"
    using item by blast
  then have "fst item \<in> result_record.driver_number ` set (results_upto results R)"
    by (simp add: set_keys_update)
  moreover have "set (results_upto results R) \<subseteq> set results"
    using set_race_results_of by (fastforce simp: results_upto_def dest: in_set_takeD)
  ultimately have "?rows \<noteq> []"
    unfolding dn by (auto simp: filter_empty_conv)
  then obtain r rest where rows: "?rows = r # rest" by (cases ?rows) auto
  have names: "driver_name s = result_record.driver_name r" "team_name s = result_record.team_name r"
    using truncate_fields [OF s] rows unfolding dn by (simp_all add: standing_of_def Let_def)
  have "sorted (map result_record.date results) \<longrightarrow>
        (\<forall>r'\<in>set results. result_record.driver_number r' = driver_number s
                                  \<longrightarrow> result_record.date r \<le> result_record.date r')"
    using first_of_sorted [OF rows] by blast
  then show ?thesis using rows names by blast
qed


theorem names_from_first_row_witness:
  "snapshot_after (transform_championship_standings example_clock 2023 (Inr example_season)) 2 ! 0
     \<in> set (snapshot_after (transform_championship_standings example_clock 2023 (Inr example_season)) 2)
   \<and> sorted (map result_record.date example_season)
   \<and> team_name (snapshot_after
        (transform_championship_standings example_clock 2023 (Inr example_season)) 2 ! 0) = ''Red''"
proof -
  let ?T = "transform_championship_standings example_clock 2023 (Inr example_season)"
  let ?s = "snapshot_after ?T 2 ! 0"
  have s: "?s \<in> set (snapshot_after ?T 2)" by code_simp
  have srt: "sorted (map result_record.date example_season)" by code_simp
  have dn: "driver_number ?s = 1" by code_simp
  have rows: "filter (\<lambda>r. result_record.driver_number r = 1) example_season =
      [example_result 1 ''Bahrain'' 1 ''A'' ''Red'' (Some 1) 26,
       example_result 2 ''Jeddah'' 1 ''A'' ''Green'' (Some 3) 15]" by code_simp
  have team: "result_record.team_name (example_result 1 ''Bahrain'' 1 ''A'' ''Red'' (Some 1) 26) = ''Red''"
    by (simp add: example_result_def)
  from names_from_first_row [OF s] obtain r rest where
    "filter (\<lambda>r. result_record.driver_number r = driver_number ?s) example_season = r # rest"
    "team_name ?s = result_record.team_name r" by blast
  then have "team_name ?s = ''Red''" unfolding dn rows using team by simp
  then show ?thesis using s srt by simp
qed

section \<open>Order of a snapshot\<close>

text \<open>
  C1, as the code has it. The entries of a snapshot are in rank order by cumulative points,
  descending. The sort key is the points alone and the sort is stable: two entries with
  equal points are ranked in the order in which their drivers first appear in the rows of
  races 1..R. Wins, podiums and driver number play no part, so the ranking is total but
  depends on the order of the input (the counterexample: the driver with no win is ranked
  ahead of the driver with one win on equal points).
\<close>

theorem ranking_by_points_then_first_appearance:
  fixes results :: "'a result_record_scheme list"
  assumes "snaps = snapshot_after (transform_championship_standings clock yr (Inr results)) R"
    and "i < j" and "j < length snaps"
  shows "position (snaps ! i) < position (snaps ! j)
       \<and> points (snaps ! j) \<le> points (snaps ! i)
       \<and> (points (snaps ! i) = points (snaps ! j) \<longrightarrow>
            first_index (driver_number (snaps ! i))
                (map result_record.driver_number (results_upto results R))
          < first_index (driver_number (snaps ! j))
                (map result_record.driver_number (results_upto results R)))"
proof -
  let ?rows = "results_upto results R"
  let ?cp = "update_cumulative_points [] ?rows"
  let ?xs = "map (standing_of results (races_of results ! (R - 1))) ?cp"
  let ?ys = "sort_points_reverse ?xs"
  have "snaps \<noteq> []" using assms(3) by auto
  then have R: "1 \<le> R" "R \<le> length (races_of results)"
    using assms(1) snapshot_out_of_range [of R results clock yr] by fastforce+
  from snapshot_in_range [OF R, of clock yr] assms(1)
  obtain m where m: "snaps = standing_records clock yr (R - 1) (races_of results ! (R - 1)) ?ys m"
    by auto
  have len: "length snaps = length ?xs" by (simp add: m)
  have j: "j < length ?xs" and i: "i < length ?xs" using assms(2,3) len by simp_all
  have nth_i: "position (snaps ! i) = i + 1" "points (snaps ! i) = points (?ys ! i)"
      "driver_number (snaps ! i) = driver_number (?ys ! i)"
    unfolding m using i by (simp_all add: nth_standing_records)
  have nth_j: "position (snaps ! j) = j + 1" "points (snaps ! j) = points (?ys ! j)"
      "driver_number (snaps ! j) = driver_number (?ys ! j)"
    unfolding m using j by (simp_all add: nth_standing_records)
  have k1: "map driver_number ?xs = map fst ?cp" by simp
  have k2: "map fst ?cp = first_seen (map result_record.driver_number ?rows)"
    using keys_update_first_seen [of "[]" ?rows] by simp
  have dkeys: "map driver_number ?xs = first_seen (map result_record.driver_number ?rows)"
    by (simp only: k1 k2)
  have "distinct (map fst ?cp)" by (rule distinct_keys_update) simp
  then have dmap: "distinct (map driver_number ?xs)" by (simp only: k1)
  then have dxs: "distinct ?xs" and inj: "inj_on driver_number (set ?xs)"
    by (simp_all only: distinct_map)
  have mem: "?ys ! i \<in> set ?xs" "?ys ! j \<in> set ?xs"
    using i j by (metis length_sort_points_reverse nth_mem set_sort_points_reverse)+
  have p1: "position (snaps ! i) < position (snaps ! j)"
    using nth_i(1) nth_j(1) assms(2) by simp
  have p2: "points (snaps ! j) \<le> points (snaps ! i)"
    using sort_points_reverse_nth_mono [of i j ?xs] assms(2) j nth_i(2) nth_j(2) by simp
  have p3: "points (snaps ! i) = points (snaps ! j) \<longrightarrow>
            first_index (driver_number (snaps ! i)) (map result_record.driver_number ?rows)
          < first_index (driver_number (snaps ! j)) (map result_record.driver_number ?rows)"
  proof
    assume "points (snaps ! i) = points (snaps ! j)"
    then have eq: "points (?ys ! i) = points (?ys ! j)" using nth_i(2) nth_j(2) by simp
    have "first_index (?ys ! i) ?xs < first_index (?ys ! j) ?xs"
      using dxs assms(2) j eq by (rule stable_order)
    moreover have "first_index (driver_number (?ys ! i)) (map driver_number ?xs)
                   = first_index (?ys ! i) ?xs"
      using inj mem(1) by (intro first_index_map) (simp add: insert_absorb)
    moreover have "first_index (driver_number (?ys ! j)) (map driver_number ?xs)
                   = first_index (?ys ! j) ?xs"
      using inj mem(2) by (intro first_index_map) (simp add: insert_absorb)
    ultimately have "first_index (driver_number (?ys ! i)) (map driver_number ?xs)
                   < first_index (driver_number (?ys ! j)) (map driver_number ?xs)"
      by simp
    then show "first_index (driver_number (snaps ! i)) (map result_record.driver_number ?rows)
          < first_index (driver_number (snaps ! j)) (map result_record.driver_number ?rows)"
      unfolding dkeys nth_i(3) nth_j(3) first_index_first_seen .
  qed
  show ?thesis using p1 p2 p3 by blast
qed

theorem ranking_by_points_then_first_appearance_witness:
  "(0::nat) < 1
   \<and> 1 < length (snapshot_after
           (transform_championship_standings example_clock 2023 (Inr tie_season)) 2)
   \<and> points (snapshot_after
        (transform_championship_standings example_clock 2023 (Inr tie_season)) 2 ! 0) = 25
   \<and> points (snapshot_after
        (transform_championship_standings example_clock 2023 (Inr tie_season)) 2 ! 1) = 25
   \<and> first_index (driver_number (snapshot_after
          (transform_championship_standings example_clock 2023 (Inr tie_season)) 2 ! 0))
        (map result_record.driver_number (results_upto tie_season 2))
     < first_index (driver_number (snapshot_after
          (transform_championship_standings example_clock 2023 (Inr tie_season)) 2 ! 1))
        (map result_record.driver_number (results_upto tie_season 2))"
proof -
  let ?S = "snapshot_after (transform_championship_standings example_clock 2023 (Inr tie_season)) 2"
  have ij: "(0::nat) < 1" by simp
  have len: "1 < length ?S" by code_simp
  have pts: "points (?S ! 0) = 25" "points (?S ! 1) = 25" by code_simp+
  from ranking_by_points_then_first_appearance [OF refl ij len] pts ij len
  show ?thesis by (simp only:)
qed

theorem tie_break_counterexample:
  "points (snapshot_after
        (transform_championship_standings example_clock 2023 (Inr tie_season)) 2 ! 0)
   = points (snapshot_after
        (transform_championship_standings example_clock 2023 (Inr tie_season)) 2 ! 1)
   \<and> wins (snapshot_after
        (transform_championship_standings example_clock 2023 (Inr tie_season)) 2 ! 0) = 0
   \<and> wins (snapshot_after
        (transform_championship_standings example_clock 2023 (Inr tie_season)) 2 ! 1) = 1
   \<and> position (snapshot_after
        (transform_championship_standings example_clock 2023 (Inr tie_season)) 2 ! 0) = 1
   \<and> position (snapshot_after
        (transform_championship_standings example_clock 2023 (Inr tie_season)) 2 ! 1) = 2
   \<and> map driver_number (snapshot_after
        (transform_championship_standings example_clock 2023 (Inr tie_season)) 2) = [2, 1]"
  by code_simp

section \<open>Replay\<close>

text \<open>
  C3, as the code has it. Let the rows of a season be split into earlier races and later
  races (every earlier row is dated before every later row). For every round of the
  earlier races, a run over the earlier rows alone and a run over all rows emit the same
  snapshot records in the same order, in every field except \<open>created_at\<close>, which is the
  wall clock of the run. With no later rows these are two runs over the same input. The
  records are not byte-identical: two runs at different times differ in \<open>created_at\<close>
  (the counterexample).
\<close>

theorem replay_of_earlier_races:
  fixes earlier later :: "'a result_record_scheme list"
  assumes "\<forall>a\<in>set earlier. \<forall>b\<in>set later. result_record.date a < result_record.date b"
    and "R \<le> length (races_of earlier)"
  shows "map without_created_at
           (snapshot_after (transform_championship_standings clock1 yr (Inr earlier)) R)
       = map without_created_at
           (snapshot_after (transform_championship_standings clock2 yr (Inr (earlier @ later))) R)"
proof (cases "R = 0")
  case True
  then show ?thesis by (simp add: snapshot_out_of_range)
next
  case False
  then have R1: "1 \<le> R" by simp
  have R2: "R \<le> length (races_of (earlier @ later))"
    using assms by (simp add: races_of_append)
  let ?race = "races_of earlier ! (R - 1)"
  let ?cp = "update_cumulative_points [] (results_upto earlier R)"
  have lt: "R - 1 < length (races_of earlier)" using R1 assms(2) by simp
  then have race_in: "?race \<in> set (races_of earlier)" by simp
  have race: "races_of (earlier @ later) ! (R - 1) = ?race"
    using lt assms(1) by (simp add: races_of_append nth_append)
  have rows: "results_upto (earlier @ later) R = results_upto earlier R"
    using assms by (rule results_upto_earlier)
  have "fst ` set ?cp \<subseteq> result_record.driver_number ` set earlier"
    using set_results_upto [of earlier R] by (auto simp: set_keys_update)
  then have st: "map (standing_of (earlier @ later) ?race) ?cp = map (standing_of earlier ?race) ?cp"
    using assms(1) race_in by (intro map_cong refl standing_of_earlier) auto
  from snapshot_in_range [OF R1 assms(2), of clock1 yr]
  obtain m1 where m1: "snapshot_after (transform_championship_standings clock1 yr (Inr earlier)) R =
      standing_records clock1 yr (R - 1) ?race
        (sort_points_reverse (map (standing_of earlier ?race) ?cp)) m1"
    by blast
  from snapshot_in_range [OF R1 R2, of clock2 yr]
  obtain m2 where m2: "snapshot_after (transform_championship_standings clock2 yr (Inr (earlier @ later))) R =
      standing_records clock2 yr (R - 1) ?race
        (sort_points_reverse (map (standing_of earlier ?race) ?cp)) m2"
    unfolding race rows st by blast
  show ?thesis unfolding m1 m2 by (rule standing_records_without_created_at)
qed

theorem replay_of_earlier_races_witness:
  "(1::nat) \<le> length (races_of (take 3 example_season))
   \<and> map without_created_at
        (snapshot_after (transform_championship_standings example_clock 2023
           (Inr (take 3 example_season))) 1)
     = map without_created_at
        (snapshot_after (transform_championship_standings later_clock 2023
           (Inr (take 3 example_season @ drop 3 example_season))) 1)"
proof -
  have order: "\<forall>a\<in>set (take 3 example_season). \<forall>b\<in>set (drop 3 example_season).
                 result_record.date a < result_record.date b"
    by code_simp
  have R: "(1::nat) \<le> length (races_of (take 3 example_season))" by code_simp
  from replay_of_earlier_races [OF order R] R show ?thesis by (simp only:)
qed

theorem rerun_counterexample:
  "transform_championship_standings example_clock 2023 (Inr example_season)
   \<noteq> transform_championship_standings later_clock 2023 (Inr example_season)"
  by code_simp



section \<open>Repeated and unordered rows\<close>

text \<open>
  C4, as the code has it. No call is rejected: the transform raises nothing and has no
  order or duplicate error. For every frame the body of the \<^verbatim>\<open>try\<close> returns records, and
  at least one when the frame has a row; an exception of the database becomes an empty
  frame. The rounds that the records carry (\<open>race_round\<close> with \<open>after_race\<close>) depend
  neither on the order of the rows nor on repetitions. Rows that are fed again for races
  already in the frame open no round and are added again: in the snapshot after round
  \<open>R\<close> a driver has the points of the run without them plus the points of the driver's
  re-fed rows in races 1..R (the counterexample: 52 points after round 1 instead of 26).
  The function keeps no state between calls.
\<close>

theorem no_race_is_rejected:
  fixes results results' :: "'a result_record_scheme list"
  shows "(\<exists>standings. standings_body clock yr (Inr results) = Inr standings)
       \<and> (results \<noteq> [] \<longrightarrow> transform_championship_standings clock yr (Inr results) \<noteq> [])
       \<and> transform_championship_standings clock yr
            (Inl e :: error + 'a result_record_scheme list) = []
       \<and> (set results' = set results \<longrightarrow>
            set (map round_label (transform_championship_standings clock yr (Inr results')))
          = set (map round_label (transform_championship_standings clock yr (Inr results))))
       \<and> ((\<forall>r\<in>set results. refed r \<longrightarrow>
               (\<exists>r0\<in>set results. \<not> refed r0 \<and> race_key r0 = race_key r)) \<longrightarrow>
            (\<forall>R s s'.
                s \<in> set (snapshot_after
                           (transform_championship_standings clock yr (Inr results)) R)
              \<and> s' \<in> set (snapshot_after
                           (transform_championship_standings clock yr
                              (Inr (filter (\<lambda>r. \<not> refed r) results))) R)
              \<and> driver_number s = driver_number s'
              \<longrightarrow> after_race s = after_race s'
                \<and> points s = points s'
                   + sum_list (map result_record.points
                       (filter (\<lambda>r. refed r \<and> result_record.driver_number r = driver_number s
                                    \<and> round_number results r \<le> R) results))))"
proof (intro conjI impI allI)
  show "\<exists>standings. standings_body clock yr (Inr results) = Inr standings"
    by (simp add: body_emitted)
  show "transform_championship_standings clock yr (Inl e :: error + 'a result_record_scheme list) = []"
    by (simp add: transform_championship_standings_def standings_body_def)
  show "set (map round_label (transform_championship_standings clock yr (Inr results')))
          = set (map round_label (transform_championship_standings clock yr (Inr results)))"
    if "set results' = set results"
    using that races_of_set [of results' results] by (simp only: round_labels_emitted)
  show "transform_championship_standings clock yr (Inr results) \<noteq> []" if ne: "results \<noteq> []"
  proof -
    have "races_of results \<noteq> []"
      using ne races_of_props(3) [of results] by (metis image_is_empty set_empty)
    then have "0 < length (races_of results)" by simp
    from snapshot_nonempty [OF this, of clock yr]
    show ?thesis by (auto simp: snapshot_after_def)
  qed
next
  fix R s s'
  assume cover: "\<forall>r\<in>set results. refed r \<longrightarrow>
               (\<exists>r0\<in>set results. \<not> refed r0 \<and> race_key r0 = race_key r)"
    and h: "s \<in> set (snapshot_after (transform_championship_standings clock yr (Inr results)) R)
              \<and> s' \<in> set (snapshot_after
                           (transform_championship_standings clock yr
                              (Inr (filter (\<lambda>r. \<not> refed r) results))) R)
              \<and> driver_number s = driver_number s'"
  from h have s: "s \<in> set (snapshot_after (transform_championship_standings clock yr (Inr results)) R)"
    and s': "s' \<in> set (snapshot_after (transform_championship_standings clock yr
                              (Inr (filter (\<lambda>r. \<not> refed r) results))) R)"
    and same: "driver_number s = driver_number s'" by simp_all
  show "after_race s = after_race s'"
    using cover s s' same by (rule refed_points(1))
  show "points s = points s'
                   + sum_list (map result_record.points
                       (filter (\<lambda>r. refed r \<and> result_record.driver_number r = driver_number s
                                    \<and> round_number results r \<le> R) results))"
    using cover s s' same by (rule refed_points(2))
qed

theorem no_race_is_rejected_witness:
  "refed_season \<noteq> []
   \<and> transform_championship_standings example_clock 2023 (Inr refed_season) \<noteq> []
   \<and> set (rev refed_season) = set refed_season
   \<and> set (map round_label
        (transform_championship_standings example_clock 2023 (Inr (rev refed_season))))
     = set (map round_label
        (transform_championship_standings example_clock 2023 (Inr refed_season)))
   \<and> filter (\<lambda>r. \<not> is_fed_again r) refed_season = example_season
   \<and> points (snapshot_after
        (transform_championship_standings example_clock 2023 (Inr refed_season)) 2 ! 0)
     = points (snapshot_after
        (transform_championship_standings example_clock 2023 (Inr example_season)) 2 ! 0) + 26"
proof -
  let ?T = "transform_championship_standings example_clock 2023 (Inr refed_season)"
  let ?B = "transform_championship_standings example_clock 2023 (Inr example_season)"
  have ne: "refed_season \<noteq> []" by (simp add: refed_season_def)
  have same: "set (rev refed_season) = set refed_season" by simp
  have base: "filter (\<lambda>r. \<not> is_fed_again r) refed_season = example_season" by code_simp
  have cover: "\<forall>r\<in>set refed_season. is_fed_again r \<longrightarrow>
               (\<exists>r0\<in>set refed_season. \<not> is_fed_again r0 \<and> race_key r0 = race_key r)"
    by code_simp
  have s: "snapshot_after ?T 2 ! 0 \<in> set (snapshot_after ?T 2)" by code_simp
  have s': "snapshot_after ?B 2 ! 0 \<in> set (snapshot_after ?B 2)" by code_simp
  have dn: "driver_number (snapshot_after ?T 2 ! 0) = driver_number (snapshot_after ?B 2 ! 0)"
    by code_simp
  have extra: "sum_list (map result_record.points
       (filter (\<lambda>r. is_fed_again r
                   \<and> result_record.driver_number r = driver_number (snapshot_after ?T 2 ! 0)
                   \<and> round_number refed_season r \<le> 2) refed_season)) = 26"
    by code_simp
  note a = no_race_is_rejected [where clock = example_clock and yr = 2023
              and results = refed_season and results' = "rev refed_season"
              and refed = is_fed_again]
  have r2: "?T \<noteq> []" by (rule a [THEN conjunct2, THEN conjunct1, THEN mp, OF ne])
  have r4: "set (map round_label
        (transform_championship_standings example_clock 2023 (Inr (rev refed_season))))
     = set (map round_label ?T)"
    by (rule a [THEN conjunct2, THEN conjunct2, THEN conjunct2, THEN conjunct1, THEN mp, OF same])
  note a5 = a [THEN conjunct2, THEN conjunct2, THEN conjunct2, THEN conjunct2, THEN mp,
               OF cover, unfolded base, rule_format, OF conjI [OF s conjI [OF s' dn]]]
  have "points (snapshot_after ?T 2 ! 0) = points (snapshot_after ?B 2 ! 0)
         + sum_list (map result_record.points
       (filter (\<lambda>r. is_fed_again r
                   \<and> result_record.driver_number r = driver_number (snapshot_after ?T 2 ! 0)
                   \<and> round_number refed_season r \<le> 2) refed_season))"
    using a5 by (rule conjunct2)
  then have r5: "points (snapshot_after ?T 2 ! 0) = points (snapshot_after ?B 2 ! 0) + 26"
    by (simp only: extra)
  show ?thesis using ne r2 same r4 base r5 by (intro conjI)
qed

theorem refed_race_counterexample:
  "sorted (map result_record.date refed_season)
   \<and> distinct (map result_id refed_season)
   \<and> standings_body example_clock 2023 (Inr refed_season)
     = Inr (transform_championship_standings example_clock 2023 (Inr refed_season))
   \<and> map points (snapshot_after
         (transform_championship_standings example_clock 2023 (Inr example_season)) 1) = [26, 18, 0]
   \<and> map points (snapshot_after
         (transform_championship_standings example_clock 2023 (Inr refed_season)) 1) = [52, 36, 0]"
  by code_simp

section \<open>Points of a disqualified driver\<close>

text \<open>
  C2, as the code has it. The \<open>dsq\<close> flag of the classification row is copied into the
  built record and does not enter the points: replacing the \<open>dsq\<close> flags of the
  classification rows changes no other field of any built record. A record, disqualified
  or not, has 0 points when its final position is null or greater than 10; for a final
  position 1..10 its points are those of the table (25, 18, 15, 12, 10, 8, 6, 4, 2, 1) or
  one more, the bonus. So a disqualified driver who is classified keeps the points of the
  position (the counterexample: 26 points).
\<close>

theorem points_do_not_read_dsq:
  "(\<forall>g\<in>set (transform_grand_prix_results clock yr fetched).
      (\<not> le_null (final_position g) 10 \<longrightarrow> result_record.points g = 0)
    \<and> (\<forall>p. final_position g = Some p \<and> 1 \<le> p \<and> p \<le> 10 \<longrightarrow>
           result_record.points g = [25, 18, 15, 12, 10, 8, 6, 4, 2, 1] ! nat (p - 1)
         \<or> result_record.points g = [25, 18, 15, 12, 10, 8, 6, 4, 2, 1] ! nat (p - 1) + 1))
   \<and> (\<forall>r\<in>set (grand_prix_result_records clock yr (Inr db)).
        \<exists>sess\<in>set (fetch_race_sessions db yr).
        \<exists>result\<in>set (fetch_session_results db (session.session_key sess)).
           result_record.driver_number r = session_result.driver_number result
         \<and> final_position r = session_result.position result
         \<and> result_record.dsq r = get_default (session_result.dsq result))
   \<and> map without_dsq (grand_prix_result_records clock yr (Inr (with_dsq db f)))
       = map without_dsq (grand_prix_result_records clock yr (Inr db))"
proof (intro conjI ballI allI impI)
  fix g assume g: "g \<in> set (transform_grand_prix_results clock yr fetched)"
  from records_built [OF transform_rows [OF g]]
  obtain now sess drivers grid fl result where
    "build_result_record now yr sess drivers grid fl [] result = Some (result_record.truncate g)"
    by blast
  from build_result_record_fields(1) [OF this]
  have pts: "result_record.points g =
           calculate_points (final_position g)
             (fastest_lap g \<noteq> None \<and> le_null (final_position g) 10)"
    by simp
  show "result_record.points g = 0" if "\<not> le_null (final_position g) 10"
    using that pts by (simp add: calculate_points_unclassified)
  show "result_record.points g = [25, 18, 15, 12, 10, 8, 6, 4, 2, 1] ! nat (p - 1)
         \<or> result_record.points g = [25, 18, 15, 12, 10, 8, 6, 4, 2, 1] ! nat (p - 1) + 1"
    if "final_position g = Some p \<and> 1 \<le> p \<and> p \<le> 10" for p
    using that pts calculate_points_table [of p] by simp
next
  fix r assume "r \<in> set (grand_prix_result_records clock yr (Inr db))"
  from records_provenance [OF this]
  obtain now sess result where
    sr: "sess \<in> set (fetch_race_sessions db yr)"
        "result \<in> set (fetch_session_results db (session.session_key sess))"
    and b: "build_result_record now yr sess (fetch_session_drivers db (session.session_key sess))
        (fetch_starting_grid db (session.session_key sess))
        (get_fastest_laps db (session.session_key sess)) [] result = Some r"
    by blast
  from build_result_record_copies [OF b] sr
  show "\<exists>sess\<in>set (fetch_race_sessions db yr).
        \<exists>result\<in>set (fetch_session_results db (session.session_key sess)).
           result_record.driver_number r = session_result.driver_number result
         \<and> final_position r = session_result.position result
         \<and> result_record.dsq r = get_default (session_result.dsq result)"
    by blast
next
  show "map without_dsq (grand_prix_result_records clock yr (Inr (with_dsq db f)))
       = map without_dsq (grand_prix_result_records clock yr (Inr db))"
    by (rule records_with_dsq)
qed

theorem points_do_not_read_dsq_witness:
  "transform_grand_prix_results example_clock 2023 (Inr dsq_db) ! 1
     \<in> set (transform_grand_prix_results example_clock 2023 (Inr dsq_db))
   \<and> dsq (transform_grand_prix_results example_clock 2023 (Inr dsq_db) ! 1)
   \<and> \<not> le_null (final_position (transform_grand_prix_results example_clock 2023 (Inr dsq_db) ! 1)) 10
   \<and> result_record.points (transform_grand_prix_results example_clock 2023 (Inr dsq_db) ! 1) = 0
   \<and> dsq (transform_grand_prix_results example_clock 2023 (Inr dsq_db) ! 0)
   \<and> final_position (transform_grand_prix_results example_clock 2023 (Inr dsq_db) ! 0) = Some 1
   \<and> (result_record.points (transform_grand_prix_results example_clock 2023 (Inr dsq_db) ! 0) = 25
      \<or> result_record.points (transform_grand_prix_results example_clock 2023 (Inr dsq_db) ! 0)
          = 25 + 1)
   \<and> map result_record.dsq (grand_prix_result_records example_clock 2023 (Inr dsq_db))
       = [True, True]
   \<and> map result_record.dsq
         (grand_prix_result_records example_clock 2023 (Inr (with_dsq dsq_db clear_dsq)))
       = [False, False]
   \<and> map result_record.points
         (grand_prix_result_records example_clock 2023 (Inr (with_dsq dsq_db clear_dsq)))
       = map result_record.points (grand_prix_result_records example_clock 2023 (Inr dsq_db))"
proof -
  let ?T = "transform_grand_prix_results example_clock 2023 (Inr dsq_db)"
  note inst = points_do_not_read_dsq [where clock = example_clock and yr = 2023
      and fetched = "Inr dsq_db" and db = dsq_db and f = clear_dsq]
  have g1: "?T ! 1 \<in> set ?T" and g0: "?T ! 0 \<in> set ?T" by code_simp+
  have d1: "dsq (?T ! 1)" and d0: "dsq (?T ! 0)" by code_simp+
  have u: "\<not> le_null (final_position (?T ! 1)) 10" by code_simp
  have p0: "final_position (?T ! 0) = Some 1" by code_simp
  have z: "result_record.points (?T ! 1) = 0" using inst g1 u by blast
  have "result_record.points (?T ! 0) = [25, 18, 15, 12, 10, 8, 6, 4, 2, 1] ! nat (1 - 1)
      \<or> result_record.points (?T ! 0) = [25, 18, 15, 12, 10, 8, 6, 4, 2, 1] ! nat (1 - 1) + 1"
    using inst g0 p0 by (metis (no_types, lifting) order_refl one_le_numeral)
  then have t: "result_record.points (?T ! 0) = 25 \<or> result_record.points (?T ! 0) = 25 + 1"
    by simp
  have c1: "map result_record.dsq (grand_prix_result_records example_clock 2023 (Inr dsq_db))
       = [True, True]" by code_simp
  have c2: "map result_record.dsq
         (grand_prix_result_records example_clock 2023 (Inr (with_dsq dsq_db clear_dsq)))
       = [False, False]" by code_simp
  have "map without_dsq (grand_prix_result_records example_clock 2023 (Inr (with_dsq dsq_db clear_dsq)))
       = map without_dsq (grand_prix_result_records example_clock 2023 (Inr dsq_db))"
    using inst by blast
  then have "map (result_record.points \<circ> without_dsq)
         (grand_prix_result_records example_clock 2023 (Inr (with_dsq dsq_db clear_dsq)))
       = map (result_record.points \<circ> without_dsq)
         (grand_prix_result_records example_clock 2023 (Inr dsq_db))"
    by (metis map_map)
  moreover have "result_record.points \<circ> without_dsq = result_record.points"
    by (simp add: fun_eq_iff without_dsq_def)
  ultimately have c3: "map result_record.points
         (grand_prix_result_records example_clock 2023 (Inr (with_dsq dsq_db clear_dsq)))
       = map result_record.points (grand_prix_result_records example_clock 2023 (Inr dsq_db))"
    by simp
  show ?thesis using g1 d1 u z d0 p0 t c1 c2 c3 by (intro conjI)
qed


theorem dsq_counterexample:
  "dsq (transform_grand_prix_results example_clock 2023 (Inr dsq_db) ! 0) = True
   \<and> final_position (transform_grand_prix_results example_clock 2023 (Inr dsq_db) ! 0) = Some 1
   \<and> fastest_lap (transform_grand_prix_results example_clock 2023 (Inr dsq_db) ! 0) = Some 90
   \<and> result_record.points (transform_grand_prix_results example_clock 2023 (Inr dsq_db) ! 0) = 26"
  by code_simp

section \<open>Fastest-lap bonus\<close>

text \<open>
  C8. The code at a session where driver 1 finishes first with the fastest lap of the
  field (90) and driver 2 finishes second with a slower best lap (91): both records get
  the bonus, 25 + 1 and 18 + 1. The frame of \<^verbatim>\<open>_get_fastest_laps\<close> holds the best lap of
  each driver, and the bonus goes to every driver who has a row in it and finishes in the
  first ten, not to the single holder of the minimum of the field.
\<close>

theorem bonus_for_every_timed_driver:
  "map result_record.driver_number
       (transform_grand_prix_results example_clock 2023 (Inr example_db)) = [1, 2]
   \<and> map final_position
       (transform_grand_prix_results example_clock 2023 (Inr example_db)) = [Some 1, Some 2]
   \<and> map fastest_lap
       (transform_grand_prix_results example_clock 2023 (Inr example_db)) = [Some 90, Some 91]
   \<and> map result_record.points
       (transform_grand_prix_results example_clock 2023 (Inr example_db)) = [26, 19]"
  by code_simp



section \<open>Penalty totals\<close>

text \<open>
  C9, as the code has it. \<^verbatim>\<open>_get_penalties\<close> returns an empty frame for every session,
  so the \<open>total_time_penalty\<close> of every built race result is 0, whatever penalty events
  were recorded (the counterexample: 5 seconds recorded, 0 in the record). The loop body
  itself, given any penalties frame, stores the sum of the \<open>penalty_seconds\<close> of the rows
  of the driver, and the points of the record do not depend on that frame.
\<close>

theorem penalty_total_is_always_zero:
  "(\<forall>g\<in>set (transform_grand_prix_results clock yr fetched). total_time_penalty g = 0)
   \<and> (\<forall>r. build_result_record now yr sess drivers grid fl penalties result = Some r \<longrightarrow>
          total_time_penalty r =
            sum_list (map penalty_row.penalty_seconds
              (filter (\<lambda>p. penalty_row.driver_number p = result_record.driver_number r) penalties))
        \<and> (\<forall>penalties'.
              map_option result_record.points
                (build_result_record now yr sess drivers grid fl penalties' result)
              = Some (result_record.points r)))"
proof (intro conjI ballI allI impI)
  fix g assume "g \<in> set (transform_grand_prix_results clock yr fetched)"
  from records_built [OF transform_rows [OF this]]
  obtain now' sess' drivers' grid' fl' result' where
    "build_result_record now' yr sess' drivers' grid' fl' [] result' = Some (result_record.truncate g)"
    by blast
  from build_result_record_fields(2) [OF this]
  show "total_time_penalty g = 0" by simp
next
  fix r assume "build_result_record now yr sess drivers grid fl penalties result = Some r"
  then show "total_time_penalty r =
            sum_list (map penalty_row.penalty_seconds
              (filter (\<lambda>p. penalty_row.driver_number p = result_record.driver_number r) penalties))"
    by (rule build_result_record_fields(2))
next
  fix r penalties'
  assume "build_result_record now yr sess drivers grid fl penalties result = Some r"
  then show "map_option result_record.points
                (build_result_record now yr sess drivers grid fl penalties' result)
              = Some (result_record.points r)"
    by (rule build_result_record_points)
qed

theorem penalty_total_is_always_zero_witness:
  "transform_grand_prix_results example_clock 2023 (Inr example_db) ! 1
     \<in> set (transform_grand_prix_results example_clock 2023 (Inr example_db))
   \<and> total_time_penalty (transform_grand_prix_results example_clock 2023 (Inr example_db) ! 1) = 0
   \<and> total_time_penalty
        (the (build_result_record 1000 2023 example_session (fetch_session_drivers example_db 9001) []
               [] example_penalties example_classification)) = 15
   \<and> map_option result_record.points
        (build_result_record 1000 2023 example_session (fetch_session_drivers example_db 9001) []
               [] [] example_classification) = Some 25"
proof -
  let ?T = "transform_grand_prix_results example_clock 2023 (Inr example_db)"
  let ?b = "build_result_record 1000 2023 example_session (fetch_session_drivers example_db 9001) []
               [] example_penalties example_classification"
  have g: "?T ! 1 \<in> set ?T" by code_simp
  have b: "?b = Some (the ?b)" by code_simp
  have dn: "result_record.driver_number (the ?b) = 1" by code_simp
  have pts: "result_record.points (the ?b) = 25" by code_simp
  have total: "sum_list (map penalty_row.penalty_seconds
              (filter (\<lambda>p. penalty_row.driver_number p = 1) example_penalties)) = 15"
    by code_simp
  note zero = penalty_total_is_always_zero [where clock = example_clock and yr = 2023
      and fetched = "Inr example_db" and now = 1000 and sess = example_session
      and drivers = "fetch_session_drivers example_db 9001" and grid = "[]" and fl = "[]"
      and penalties = example_penalties and result = example_classification]
  have z: "total_time_penalty (?T ! 1) = 0" using zero g by blast
  have t: "total_time_penalty (the ?b) = 15" using zero b dn total by metis
  have p: "map_option result_record.points
        (build_result_record 1000 2023 example_session (fetch_session_drivers example_db 9001) []
               [] [] example_classification) = Some 25"
    using zero b pts by metis
  show ?thesis using g z t p by (intro conjI)
qed

theorem recorded_penalty_counterexample:
  "recorded_penalty_seconds example_db 9001 2 = 5
   \<and> map result_record.driver_number
        (transform_grand_prix_results example_clock 2023 (Inr example_db)) = [1, 2]
   \<and> map total_time_penalty
        (transform_grand_prix_results example_clock 2023 (Inr example_db)) = [0, 0]"
  by code_simp

end
